theory Spec2Isabelle
  imports Complex_Main
begin

section \<open>The FastScape RB+GPU landscape-evolution model\<close>

text \<open>
  This theory embeds the member functions of class \<open>FastScape_RBGPU\<close>
  (file \<open>fastscape_RB+GPU.cpp\<close>).  Cells are flat \<open>int\<close> indices \<open>c = y*width + x\<close>;
  every array of the class is a store from indices to values.  The C++ \<open>double\<close>
  arrays \<open>h\<close> and \<open>accum\<close> hold real numbers here: IEEE rounding, infinities and
  NaN are not modelled.  The C++ \<open>int\<close> is the unbounded \<open>int\<close>; where a bound matters it
  is stated as a hypothesis.
\<close>

subsection \<open>Constants of the class\<close>

definition NO_FLOW :: int where
  "NO_FLOW = - 1"

text \<open>
  \<open>SQRT2\<close> is the value that the \<open>const double\<close> holds: the double nearest to the decimal
  literal of the source, \<open>0x1.6a09e667f3bcdp+0\<close>.
\<close>

definition SQRT2 :: real where
  "SQRT2 = 6369051672525773 / 4503599627370496"

definition keq :: real where "keq = 2 / 1000000"
definition neq :: real where "neq = 2"
definition meq :: real where "meq = 8 / 10"
definition ueq :: real where "ueq = 2 / 1000"
definition dt :: real where "dt = 1000"
definition tol :: real where "tol = 1 / 1000"
definition cell_area :: real where "cell_area = 40000"

definition dr :: "int \<Rightarrow> real" where
  "dr n = [1, SQRT2, 1, SQRT2, 1, SQRT2, 1, SQRT2] ! nat n"

text \<open>The constructor's initialiser \<open>nshift{-1,-width0-1,-width0,-width0+1,1,width0+1,width0,width0-1}\<close>.\<close>

definition nshift :: "int \<Rightarrow> int \<Rightarrow> int" where
  "nshift W n = [- 1, - W - 1, - W, - W + 1, 1, W + 1, W, W - 1] ! nat n"

subsection \<open>The state of the class\<close>

record state =
  h :: "int \<Rightarrow> real"
  accum :: "int \<Rightarrow> real"
  rec :: "int \<Rightarrow> int"
  donor :: "int \<Rightarrow> int"
  ndon :: "int \<Rightarrow> int"
  stack :: "int \<Rightarrow> int"
  levels :: "int \<Rightarrow> int"
  nlevel :: int

text \<open>
  The nested loops \<open>for(y=ylo;y<yhi;y++) for(x=xlo;x<xhi;x++)\<close> visit the cells
  \<open>y*width+x\<close> in row-major order.
\<close>

definition cells :: "int \<Rightarrow> int \<Rightarrow> int \<Rightarrow> int \<Rightarrow> int \<Rightarrow> int list" where
  "cells W ylo yhi xlo xhi =
     concat (map (\<lambda>y. map (\<lambda>x. y * W + x) [xlo..xhi - 1]) [ylo..yhi - 1])"

definition all_cells :: "int \<Rightarrow> int \<Rightarrow> int list" where
  "all_cells W H = cells W 0 H 0 W"

definition frame :: "int \<Rightarrow> int \<Rightarrow> int list" where
  "frame W H = cells W 1 (H - 1) 1 (W - 1)"

definition interior :: "int \<Rightarrow> int \<Rightarrow> int list" where
  "interior W H = cells W 2 (H - 2) 2 (W - 2)"

subsection \<open>GenerateRandomTerrain\<close>

text \<open>
  \<open>rand()/(double)RAND_MAX\<close> is the parameter \<open>draw\<close>: the value drawn for each cell,
  a number between 0 and 1.
\<close>

definition terrain_cell :: "int \<Rightarrow> int \<Rightarrow> (int \<Rightarrow> real) \<Rightarrow> int \<Rightarrow> int \<Rightarrow> real" where
  "terrain_cell W H draw y x =
     (let v = draw (y * W + x);
          v = (if x = 0 \<or> y = 0 \<or> x = W - 1 \<or> y = H - 1 then 0 else v);
          v = (if x = 1 \<or> y = 1 \<or> x = W - 2 \<or> y = H - 2 then 0 else v)
      in v)"

definition GenerateRandomTerrain ::
    "int \<Rightarrow> int \<Rightarrow> (int \<Rightarrow> real) \<Rightarrow> (int \<Rightarrow> real) \<Rightarrow> (int \<Rightarrow> real)" where
  "GenerateRandomTerrain W H draw h0 =
     fold (\<lambda>y hh. fold (\<lambda>x hh. hh(y * W + x := terrain_cell W H draw y x)) [0..W - 1] hh)
       [0..H - 1] h0"

subsection \<open>ComputeReceivers\<close>

definition slope :: "int \<Rightarrow> (int \<Rightarrow> real) \<Rightarrow> int \<Rightarrow> int \<Rightarrow> real" where
  "slope W hh c n = (hh c - hh (c + nshift W n)) / dr n"

definition rec_step :: "int \<Rightarrow> (int \<Rightarrow> real) \<Rightarrow> int \<Rightarrow> int \<Rightarrow> real \<times> int \<Rightarrow> real \<times> int" where
  "rec_step W hh c n acc =
     (case acc of (max_slope, max_n) \<Rightarrow>
        if slope W hh c n > max_slope then (slope W hh c n, n) else (max_slope, max_n))"

definition steepest :: "int \<Rightarrow> (int \<Rightarrow> real) \<Rightarrow> int \<Rightarrow> int" where
  "steepest W hh c = snd (fold (rec_step W hh c) [0..7] (0, NO_FLOW))"

definition ComputeReceivers :: "int \<Rightarrow> int \<Rightarrow> state \<Rightarrow> state" where
  "ComputeReceivers W H s =
     fold (\<lambda>c s. s\<lparr>rec := (rec s)(c := steepest W (h s) c)\<rparr>) (interior W H) s"

subsection \<open>ComputeDonors\<close>

definition donor_step ::
    "int \<Rightarrow> (int \<Rightarrow> int) \<Rightarrow> int \<Rightarrow> int \<Rightarrow> (int \<Rightarrow> int) \<times> (int \<Rightarrow> int)
      \<Rightarrow> (int \<Rightarrow> int) \<times> (int \<Rightarrow> int)" where
  "donor_step W r c ni dd =
     (case dd of (dn, nd) \<Rightarrow>
        let n = c + nshift W ni in
        if r n \<noteq> NO_FLOW \<and> n + nshift W (r n) = c
        then (dn(8 * c + nd c := n), nd(c := nd c + 1))
        else (dn, nd))"

definition donor_cell ::
    "int \<Rightarrow> (int \<Rightarrow> int) \<Rightarrow> int \<Rightarrow> (int \<Rightarrow> int) \<times> (int \<Rightarrow> int)
      \<Rightarrow> (int \<Rightarrow> int) \<times> (int \<Rightarrow> int)" where
  "donor_cell W r c dd =
     (case dd of (dn, nd) \<Rightarrow> fold (donor_step W r c) [0..7] (dn, nd(c := 0)))"

definition ComputeDonors :: "int \<Rightarrow> int \<Rightarrow> state \<Rightarrow> state" where
  "ComputeDonors W H s =
     (case fold (donor_cell W (rec s)) (frame W H) (donor s, ndon s) of
        (dn, nd) \<Rightarrow> s\<lparr>donor := dn, ndon := nd\<rparr>)"

subsection \<open>GenerateOrder\<close>

text \<open>
  A failed \<open>assert\<close> aborts the program; the functions that contain one return
  \<open>Inl AssertionFailed\<close> there.
\<close>

datatype error = AssertionFailed

fun fold_err :: "('a \<Rightarrow> 's \<Rightarrow> error + 's) \<Rightarrow> 'a list \<Rightarrow> 's \<Rightarrow> error + 's" where
  "fold_err f [] s = Inr s"
| "fold_err f (x # xs) s = (case f x s of Inl e \<Rightarrow> Inl e | Inr s' \<Rightarrow> fold_err f xs s')"

text \<open>\<open>run\<close> sets \<open>stack_width = size\<close> and \<open>level_width = size\<close>.\<close>

definition stack_width :: "int \<Rightarrow> int \<Rightarrow> int" where
  "stack_width W H = W * H"

definition level_width :: "int \<Rightarrow> int \<Rightarrow> int" where
  "level_width W H = W * H"

text \<open>The local \<open>nstack\<close> travels with the state.\<close>

definition push_seed :: "int \<Rightarrow> int \<Rightarrow> state \<times> int \<Rightarrow> error + state \<times> int" where
  "push_seed sw c sn =
     (case sn of (s, nstack) \<Rightarrow>
        if rec s c = NO_FLOW
        then (if nstack + 1 < sw
              then Inr (s\<lparr>stack := (stack s)(nstack := c)\<rparr>, nstack + 1)
              else Inl AssertionFailed)
        else Inr (s, nstack))"

definition push_donor :: "int \<Rightarrow> int \<Rightarrow> int \<Rightarrow> state \<times> int \<Rightarrow> error + state \<times> int" where
  "push_donor sw c k sn =
     (case sn of (s, nstack) \<Rightarrow>
        let n = donor s (8 * c + k) in
        if nstack + 1 \<le> sw
        then Inr (s\<lparr>stack := (stack s)(nstack := n)\<rparr>, nstack + 1)
        else Inl AssertionFailed)"

definition push_donors :: "int \<Rightarrow> int \<Rightarrow> state \<times> int \<Rightarrow> error + state \<times> int" where
  "push_donors sw si sn =
     (case sn of (s, nstack) \<Rightarrow>
        let c = stack s si in fold_err (push_donor sw c) [0..ndon s c - 1] (s, nstack))"

definition new_level :: "state \<times> int \<Rightarrow> state \<times> int" where
  "new_level sn =
     (case sn of (s, nstack) \<Rightarrow>
        (s\<lparr>levels := (levels s)(nlevel s := nstack), nlevel := nlevel s + 1\<rparr>, nstack))"

function order_loop :: "int \<Rightarrow> int \<times> int \<times> state \<times> int \<Rightarrow> error + state \<times> int" where
  "order_loop sw (level_bottom, level_top, s, nstack) =
     (if level_bottom < level_top
      then (case fold_err (push_donors sw) [level_top..nstack - 1] (s, nstack) of
              Inl e \<Rightarrow> Inl e
            | Inr sn \<Rightarrow> order_loop sw (level_top, nstack, new_level sn))
      else Inr (s, nstack))"
  by pat_completeness auto
termination
proof -
  have pd: "push_donor sw c k (s, n) = Inr (s', n') \<Longrightarrow> n' = n + 1 \<and> n' \<le> sw"
    for sw c k s n s' n'
    by (auto simp: push_donor_def Let_def split: if_splits)
  have fd: "fold_err (push_donor sw c) ks sn = Inr sn' \<Longrightarrow>
      snd sn \<le> snd sn' \<and> (snd sn < snd sn' \<longrightarrow> snd sn' \<le> sw)"
    for sw c ks sn sn'
  proof (induction ks arbitrary: sn)
    case Nil
    then show ?case by simp
  next
    case (Cons k ks)
    obtain s n where sn: "sn = (s, n)" by (cases sn)
    from Cons.prems obtain s1 n1 where 1: "push_donor sw c k (s, n) = Inr (s1, n1)"
      and 2: "fold_err (push_donor sw c) ks (s1, n1) = Inr sn'"
      by (auto simp: sn split: sum.splits)
    from pd[OF 1] Cons.IH[OF 2] show ?case by (auto simp: sn)
  qed
  have fds: "fold_err (push_donors sw) sis sn = Inr sn' \<Longrightarrow>
      snd sn \<le> snd sn' \<and> (snd sn < snd sn' \<longrightarrow> snd sn' \<le> sw)"
    for sw sis sn sn'
  proof (induction sis arbitrary: sn)
    case Nil
    then show ?case by simp
  next
    case (Cons si sis)
    from Cons.prems obtain sn1 where 1: "push_donors sw si sn = Inr sn1"
      and 2: "fold_err (push_donors sw) sis sn1 = Inr sn'"
      by (auto split: sum.splits)
    from 1 have "snd sn \<le> snd sn1 \<and> (snd sn < snd sn1 \<longrightarrow> snd sn1 \<le> sw)"
      by (cases sn) (auto simp: push_donors_def Let_def dest: fd)
    with Cons.IH[OF 2] show ?case by auto
  qed
  show ?thesis
    apply (relation "measure (\<lambda>(sw, level_bottom, level_top, s, nstack).
       if level_bottom < level_top
       then (if level_top < nstack then 2 + nat (sw - nstack) else 1) else 0)")
     apply simp
    apply (auto simp: new_level_def split: prod.splits dest!: fds)
    done
qed

definition GenerateOrder :: "int \<Rightarrow> int \<Rightarrow> state \<Rightarrow> error + state" where
  "GenerateOrder W H s =
     (let s0 = s\<lparr>levels := (levels s)(0 := 0), nlevel := 1\<rparr> in
      case fold_err (push_seed (stack_width W H)) (frame W H) (s0, 0) of
        Inl e \<Rightarrow> Inl e
      | Inr sn1 \<Rightarrow>
          (case new_level sn1 of (s2, nstack) \<Rightarrow>
             if \<not> nlevel s2 < level_width W H then Inl AssertionFailed
             else (case order_loop (stack_width W H) (- 1, 0, s2, nstack) of
                     Inl e \<Rightarrow> Inl e
                   | Inr (s3, nstack') \<Rightarrow>
                       let s4 = s3\<lparr>nlevel := nlevel s3 - 1\<rparr> in
                       if levels s4 (nlevel s4 - 1) = nstack' then Inr s4
                       else Inl AssertionFailed)))"

subsection \<open>ComputeFlowAcc\<close>

definition acc_cell :: "int \<Rightarrow> int \<Rightarrow> state \<Rightarrow> state" where
  "acc_cell W si s =
     (let c = stack s si in
      if rec s c \<noteq> NO_FLOW
      then (let n = c + nshift W (rec s c) in s\<lparr>accum := (accum s)(n := accum s n + accum s c)\<rparr>)
      else s)"

definition acc_level :: "int \<Rightarrow> int \<Rightarrow> state \<Rightarrow> state" where
  "acc_level W li s = fold (acc_cell W) [levels s li..levels s (li + 1) - 1] s"

definition ComputeFlowAcc :: "int \<Rightarrow> int \<Rightarrow> state \<Rightarrow> state" where
  "ComputeFlowAcc W H s =
     fold (acc_level W) (rev [1..nlevel s - 2])
       (fold (\<lambda>i s. s\<lparr>accum := (accum s)(i := cell_area)\<rparr>) [0..W * H - 1] s)"

subsection \<open>AddUplift\<close>

definition AddUplift :: "int \<Rightarrow> int \<Rightarrow> state \<Rightarrow> state" where
  "AddUplift W H s = fold (\<lambda>c s. s\<lparr>h := (h s)(c := h s c + ueq * dt)\<rparr>) (interior W H) s"

subsection \<open>Erode\<close>

text \<open>
  \<open>std::pow\<close> on real arguments: an integral exponent gives the exact power, also of a
  negative base; any other exponent is only ever applied to a positive base.
\<close>

definition cpow :: "real \<Rightarrow> real \<Rightarrow> real" where
  "cpow x y =
     (if y = of_int \<lfloor>y\<rfloor>
      then (if 0 \<le> y then x ^ nat \<lfloor>y\<rfloor> else 1 / x ^ nat \<lfloor>- y\<rfloor>)
      else x powr y)"

text \<open>
  The Newton--Raphson loop \<open>while(std::abs(diff)>tol)\<close> has no iteration bound; a run of
  the loop that never ends is the value \<open>None\<close>.
\<close>

partial_function (option) newton ::
    "real \<Rightarrow> real \<Rightarrow> real \<Rightarrow> real \<Rightarrow> real \<Rightarrow> real \<Rightarrow> real option" where
  "newton factr h0 hn hnew hp diff =
     (if \<bar>diff\<bar> > tol
      then (let hnew' = hnew - (hnew - h0 + factr * cpow (hnew - hn) neq)
                                / (1 + factr * neq * cpow (hnew - hn) (neq - 1));
                diff' = hnew' - hp;
                hp' = hnew'
            in newton factr h0 hn hnew' hp' diff')
      else Some hnew)"

declare newton.simps [code]

definition erode_cell :: "int \<Rightarrow> int \<Rightarrow> state \<Rightarrow> state option" where
  "erode_cell W si s =
     (let c = stack s si in
      if rec s c = NO_FLOW then Some s
      else (let n = c + nshift W (rec s c);
                len = dr (rec s c);
                factr = keq * dt * cpow (accum s c) meq / cpow len neq;
                h0 = h s c;
                hn = h s n
            in case newton factr h0 hn h0 h0 (2 * tol) of
                 None \<Rightarrow> None
               | Some hnew \<Rightarrow> Some (s\<lparr>h := (h s)(c := hnew)\<rparr>)))"

fun fold_opt :: "('a \<Rightarrow> 's \<Rightarrow> 's option) \<Rightarrow> 'a list \<Rightarrow> 's \<Rightarrow> 's option" where
  "fold_opt f [] s = Some s"
| "fold_opt f (x # xs) s = (case f x s of None \<Rightarrow> None | Some s' \<Rightarrow> fold_opt f xs s')"

definition erode_level :: "int \<Rightarrow> int \<Rightarrow> state \<Rightarrow> state option" where
  "erode_level W li s = fold_opt (erode_cell W) [levels s li..levels s (li + 1) - 1] s"

definition Erode :: "int \<Rightarrow> state \<Rightarrow> state option" where
  "Erode W s = fold_opt (erode_level W) [0..nlevel s - 2] s"

subsection \<open>The constructor, run and the step loop\<close>

definition constructor :: "int \<Rightarrow> int \<Rightarrow> (int \<Rightarrow> real) \<Rightarrow> state \<Rightarrow> state" where
  "constructor W H draw s = s\<lparr>h := GenerateRandomTerrain W H draw (h s)\<rparr>"

definition run_init :: "int \<Rightarrow> int \<Rightarrow> state \<Rightarrow> state" where
  "run_init W H s =
     (let s = fold (\<lambda>i s. s\<lparr>rec := (rec s)(i := NO_FLOW)\<rparr>) [0..W * H - 1] s;
          s = fold (\<lambda>i s. s\<lparr>ndon := (ndon s)(i := 0)\<rparr>) [0..W * H - 1] s
      in s)"

text \<open>
  One pass of the loop body of \<open>run\<close>.  The result is \<open>None\<close> when \<open>Erode\<close> does not
  return, \<open>Some (Inl e)\<close> when an assertion aborts the program, and \<open>Some (Inr s')\<close>
  otherwise.
\<close>

definition step :: "int \<Rightarrow> int \<Rightarrow> state \<Rightarrow> (error + state) option" where
  "step W H s =
     (case GenerateOrder W H (ComputeDonors W H (ComputeReceivers W H s)) of
        Inl e \<Rightarrow> Some (Inl e)
      | Inr s' \<Rightarrow>
          (case Erode W (AddUplift W H (ComputeFlowAcc W H s')) of
             None \<Rightarrow> None
           | Some s'' \<Rightarrow> Some (Inr s'')))"

text \<open>The loop \<open>for(int step=0;step<=nstep;step++)\<close> of \<open>run\<close>.\<close>

function run_loop :: "int \<Rightarrow> int \<Rightarrow> int \<Rightarrow> int \<Rightarrow> state \<Rightarrow> (error + state) option" where
  "run_loop W H i nstep s =
     (if i \<le> nstep
      then (case step W H s of
              None \<Rightarrow> None
            | Some (Inl e) \<Rightarrow> Some (Inl e)
            | Some (Inr s') \<Rightarrow> run_loop W H (i + 1) nstep s')
      else Some (Inr s))"
  by pat_completeness auto
termination
  by (relation "measure (\<lambda>(W, H, i, nstep, s). nat (nstep + 1 - i))") auto

definition run :: "int \<Rightarrow> int \<Rightarrow> int \<Rightarrow> state \<Rightarrow> (error + state) option" where
  "run W H nstep s = run_loop W H 0 nstep (run_init W H s)"

subsection \<open>Notions used to state the properties\<close>

text \<open>
  The neighbours of \<open>c\<close>, in direction order, whose receiver entry points at \<open>c\<close>.
\<close>

definition pointing_neighbours :: "int \<Rightarrow> (int \<Rightarrow> int) \<Rightarrow> int \<Rightarrow> int list" where
  "pointing_neighbours W r c =
     filter (\<lambda>n. r n \<noteq> NO_FLOW \<and> n + nshift W (r n) = c) (map (\<lambda>ni. c + nshift W ni) [0..7])"

text \<open>The donor slots \<open>donor[8c..8c+ndon[c])\<close> of a cell.\<close>

definition donor_slots :: "state \<Rightarrow> int \<Rightarrow> int list" where
  "donor_slots s c = map (\<lambda>k. donor s (8 * c + k)) [0..ndon s c - 1]"

text \<open>The same for the neighbours in the directions \<open>ds\<close> only.\<close>

definition ptr :: "int \<Rightarrow> (int \<Rightarrow> int) \<Rightarrow> int \<Rightarrow> int list \<Rightarrow> int list" where
  "ptr W r c ds = filter (\<lambda>n. r n \<noteq> NO_FLOW \<and> n + nshift W (r n) = c) (map (\<lambda>ni. c + nshift W ni) ds)"

text \<open>A 5 x 5 state in which cell 11 flows east into the centre cell 12.\<close>

definition grid5 :: state where
  "grid5 = \<lparr>h = (\<lambda>_. 0), accum = (\<lambda>_. 0), rec = (\<lambda>n. if n = 11 then 4 else - 1),
     donor = (\<lambda>_. 0), ndon = (\<lambda>_. 0), stack = (\<lambda>_. 0), levels = (\<lambda>_. 0), nlevel = 0\<rparr>"

text \<open>The cell that \<open>c\<close> flows into: \<open>c+nshift[rec[c]]\<close>.\<close>

definition receiver :: "int \<Rightarrow> state \<Rightarrow> int \<Rightarrow> int" where
  "receiver W s c = c + nshift W (rec s c)"

text \<open>Following the receiver links from \<open>c\<close> for \<open>k\<close> steps; \<open>None\<close> when a sink stops the walk earlier.\<close>

fun flow_path :: "int \<Rightarrow> state \<Rightarrow> nat \<Rightarrow> int \<Rightarrow> int option" where
  "flow_path W s 0 c = Some c"
| "flow_path W s (Suc k) c =
     (if rec s c = NO_FLOW then None else flow_path W s k (receiver W s c))"

text \<open>
  The boundaries between the stages of the loop body of \<open>run\<close>.  \<open>at_stage W H b s\<close>: in some
  run on a \<open>W\<close> by \<open>H\<close> grid, started from the constructor with draws between 0 and 1 and
  arbitrary contents of the arrays that \<open>new[]\<close> leaves uninitialised, \<open>s\<close> is the state at
  boundary \<open>b\<close> of some pass of the loop.
\<close>

datatype boundary = Start | Received | Donated | Ordered | Accumulated | Uplifted

inductive at_stage :: "int \<Rightarrow> int \<Rightarrow> boundary \<Rightarrow> state \<Rightarrow> bool" for W H where
  at_first: "\<forall>c. 0 \<le> draw c \<and> draw c \<le> 1 \<Longrightarrow>
       at_stage W H Start (run_init W H (constructor W H draw s0))"
| at_Received: "at_stage W H Start s \<Longrightarrow> at_stage W H Received (ComputeReceivers W H s)"
| at_Donated: "at_stage W H Received s \<Longrightarrow> at_stage W H Donated (ComputeDonors W H s)"
| at_Ordered: "at_stage W H Donated s \<Longrightarrow> GenerateOrder W H s = Inr s' \<Longrightarrow> at_stage W H Ordered s'"
| at_Accumulated: "at_stage W H Ordered s \<Longrightarrow> at_stage W H Accumulated (ComputeFlowAcc W H s)"
| at_Uplifted: "at_stage W H Accumulated s \<Longrightarrow> at_stage W H Uplifted (AddUplift W H s)"
| at_next: "at_stage W H Uplifted s \<Longrightarrow> Erode W s = Some s' \<Longrightarrow> at_stage W H Start s'"

text \<open>The cells of the outermost two rings.\<close>

definition outer_rings :: "int \<Rightarrow> int \<Rightarrow> int set" where
  "outer_rings W H =
     {c. \<exists>y x. 0 \<le> y \<and> y < H \<and> 0 \<le> x \<and> x < W \<and> c = y * W + x
          \<and> (x \<in> {0, 1, W - 2, W - 1} \<or> y \<in> {0, 1, H - 2, H - 1})}"

text \<open>The inner loop of \<open>GenerateRandomTerrain\<close>: one row.\<close>

definition terrain_row_fill :: "int \<Rightarrow> (int \<Rightarrow> int \<Rightarrow> real) \<Rightarrow> int \<Rightarrow> (int \<Rightarrow> real) \<Rightarrow> (int \<Rightarrow> real)" where
  "terrain_row_fill W t y = fold (\<lambda>x hh. hh(y * W + x := t y x)) [0..W - 1]"

text \<open>One Newton--Raphson update of \<open>hnew\<close>, as in the body of the loop in \<open>Erode\<close>.\<close>

definition newton_step :: "real \<Rightarrow> real \<Rightarrow> real \<Rightarrow> real \<Rightarrow> real" where
  "newton_step factr h0 hn hnew =
     hnew - (hnew - h0 + factr * cpow (hnew - hn) neq)
             / (1 + factr * neq * cpow (hnew - hn) (neq - 1))"

text \<open>\<open>GenerateOrder\<close> writes \<open>stack\<close>, \<open>levels\<close> and \<open>nlevel\<close> only.\<close>

definition order_only :: "state \<Rightarrow> state \<Rightarrow> bool" where
  "order_only s s' \<longleftrightarrow>
     h s' = h s \<and> accum s' = accum s \<and> rec s' = rec s \<and> donor s' = donor s \<and> ndon s' = ndon s"
text \<open>\<open>ComputeFlowAcc\<close> writes \<open>accum\<close> only, \<open>Erode\<close> writes \<open>h\<close> only.\<close>

definition accum_only :: "state \<Rightarrow> state \<Rightarrow> bool" where
  "accum_only s s' \<longleftrightarrow>
     h s' = h s \<and> rec s' = rec s \<and> donor s' = donor s \<and> ndon s' = ndon s
     \<and> stack s' = stack s \<and> levels s' = levels s \<and> nlevel s' = nlevel s"

definition h_only :: "state \<Rightarrow> state \<Rightarrow> bool" where
  "h_only s s' \<longleftrightarrow>
     accum s' = accum s \<and> rec s' = rec s \<and> donor s' = donor s \<and> ndon s' = ndon s
     \<and> stack s' = stack s \<and> levels s' = levels s \<and> nlevel s' = nlevel s"

text \<open>The opposite direction, \<open>d\<close> xor 4.\<close>

definition opposite :: "int \<Rightarrow> int" where
  "opposite d = (d + 4) mod 8"

text \<open>
  What holds of the arrays at every stage boundary: outside the interior \<open>rec\<close> is
  \<open>NO_FLOW\<close> and \<open>h\<close> is 0, elevations are not negative, receiver entries are \<open>NO_FLOW\<close>
  or a direction, and only frame cells have donors.
\<close>

definition grid_inv :: "int \<Rightarrow> int \<Rightarrow> state \<Rightarrow> bool" where
  "grid_inv W H s \<longleftrightarrow>
     (\<forall>c \<in> set (all_cells W H). c \<notin> set (interior W H) \<longrightarrow> rec s c = NO_FLOW \<and> h s c = 0)
   \<and> (\<forall>c \<in> set (all_cells W H). 0 \<le> h s c)
   \<and> (\<forall>c \<in> set (interior W H). rec s c = NO_FLOW \<or> (0 \<le> rec s c \<and> rec s c \<le> 7))
   \<and> (\<forall>c \<in> set (all_cells W H). c \<notin> set (frame W H) \<longrightarrow> ndon s c = 0)"

text \<open>Every receiver is strictly lower than its donor.\<close>

definition descends :: "int \<Rightarrow> int \<Rightarrow> state \<Rightarrow> bool" where
  "descends W H s \<longleftrightarrow>
     (\<forall>c \<in> set (interior W H). rec s c \<noteq> NO_FLOW \<longrightarrow> h s (receiver W s c) < h s c)"

text \<open>No receiver is higher than its donor.\<close>

definition descends_weak :: "int \<Rightarrow> int \<Rightarrow> state \<Rightarrow> bool" where
  "descends_weak W H s \<longleftrightarrow>
     (\<forall>c \<in> set (interior W H). rec s c \<noteq> NO_FLOW \<longrightarrow> h s (receiver W s c) \<le> h s c)"

text \<open>The donor slots of every frame cell list the neighbours that point at it.\<close>

definition donors_ok :: "int \<Rightarrow> int \<Rightarrow> state \<Rightarrow> bool" where
  "donors_ok W H s \<longleftrightarrow>
     (\<forall>c \<in> set (frame W H).
        donor_slots s c = pointing_neighbours W (rec s) c
        \<and> ndon s c = int (length (pointing_neighbours W (rec s) c)))"

text \<open>What \<open>Erode\<close> maintains while it walks the stack, relative to the state it started from.\<close>

definition erode_inv :: "int \<Rightarrow> int \<Rightarrow> state \<Rightarrow> state \<Rightarrow> bool" where
  "erode_inv W H s t \<longleftrightarrow>
     grid_inv W H t \<and> descends_weak W H t \<and> (\<forall>c \<in> set (all_cells W H). h t c \<le> h s c)"

text \<open>Every interior cell holds the result of its steepest-descent scan.\<close>

definition steepest_ok :: "int \<Rightarrow> int \<Rightarrow> state \<Rightarrow> bool" where
  "steepest_ok W H s \<longleftrightarrow> (\<forall>c \<in> set (interior W H). rec s c = steepest W (h s) c)"

text \<open>The state at the top of the first pass on a 5 x 5 grid whose centre cell drew 1/2.\<close>

definition start5 :: state where
  "start5 = run_init 5 5 (constructor 5 5 (\<lambda>_. 1 / 2) grid5)"

text \<open>The same pass after the Receivers and Donors stages.\<close>

definition donated5 :: state where
  "donated5 = ComputeDonors 5 5 (ComputeReceivers 5 5 start5)"

text \<open>Writing the list \<open>xs\<close> into an array from position \<open>n\<close> on, one entry after the other.\<close>

fun put :: "(int \<Rightarrow> int) \<Rightarrow> int \<Rightarrow> int list \<Rightarrow> (int \<Rightarrow> int)" where
  "put f n [] = f"
| "put f n (x # xs) = put (f(n := x)) (n + 1) xs"

text \<open>The \<open>k\<close> entries of an array from position \<open>a\<close> on.\<close>

definition seg :: "(int \<Rightarrow> int) \<Rightarrow> int \<Rightarrow> nat \<Rightarrow> int list" where
  "seg f a k = map (\<lambda>i. f (a + int i)) [0..<k]"

text \<open>
  The order that \<open>GenerateOrder\<close> builds, read off the arrays \<open>rec\<close>, \<open>donor\<close> and
  \<open>ndon\<close>: level 0 holds the frame cells marked \<open>NO_FLOW\<close> in row-major order, and each
  further level holds the donor slots of the cells of the level before it.
\<close>

definition seeds :: "int \<Rightarrow> int \<Rightarrow> state \<Rightarrow> int list" where
  "seeds W H s = filter (\<lambda>c. rec s c = NO_FLOW) (frame W H)"

fun bfs_level :: "int \<Rightarrow> int \<Rightarrow> state \<Rightarrow> nat \<Rightarrow> int list" where
  "bfs_level W H s 0 = seeds W H s"
| "bfs_level W H s (Suc k) = concat (map (donor_slots s) (bfs_level W H s k))"

definition bfs_upto :: "int \<Rightarrow> int \<Rightarrow> state \<Rightarrow> nat \<Rightarrow> int list" where
  "bfs_upto W H s j = concat (map (bfs_level W H s) [0..<j])"

text \<open>
  The variables of the \<open>while\<close> loop of \<open>GenerateOrder\<close> at its head, after \<open>j\<close> passes of
  its body, for a loop entered with the arrays of \<open>s0\<close>.
\<close>

definition loop_head ::
    "int \<Rightarrow> int \<Rightarrow> state \<Rightarrow> nat \<Rightarrow> int \<times> int \<times> state \<times> int \<Rightarrow> bool" where
  "loop_head W H s0 j v \<longleftrightarrow>
     (case v of (level_bottom, level_top, s, nstack) \<Rightarrow>
        level_bottom = (if j = 0 then - 1 else int (length (bfs_upto W H s0 (j - 1))))
      \<and> level_top = int (length (bfs_upto W H s0 j))
      \<and> nstack = int (length (bfs_upto W H s0 (Suc j)))
      \<and> seg (stack s) 0 (length (bfs_upto W H s0 (Suc j))) = bfs_upto W H s0 (Suc j)
      \<and> nlevel s = int j + 2
      \<and> (\<forall>i \<le> Suc j. levels s (int i) = int (length (bfs_upto W H s0 i)))
      \<and> order_only s0 s)"

text \<open>\<open>c\<close> is \<open>k\<close> receiver links away from the \<open>NO_FLOW\<close> cell that its flow ends in.\<close>

definition sink_dist :: "int \<Rightarrow> state \<Rightarrow> int \<Rightarrow> nat \<Rightarrow> bool" where
  "sink_dist W s c k \<longleftrightarrow> (\<exists>r. flow_path W s k c = Some r \<and> rec s r = NO_FLOW)"

text \<open>
  What \<open>GenerateOrder\<close> leaves in \<open>stack\<close>, \<open>levels\<close> and \<open>nlevel\<close>: the levels up to the
  first empty one, \<open>K\<close>, lie one after the other in \<open>stack\<close>, and \<open>levels\<close> holds the
  position where each begins, with one more entry for the empty level.
\<close>

definition ordered :: "int \<Rightarrow> int \<Rightarrow> state \<Rightarrow> nat \<Rightarrow> bool" where
  "ordered W H s K \<longleftrightarrow>
     bfs_level W H s K = [] \<and> (\<forall>k < K. bfs_level W H s k \<noteq> [])
   \<and> nlevel s = int K + 2
   \<and> (\<forall>i \<le> Suc K. levels s (int i) = int (length (bfs_upto W H s i)))
   \<and> seg (stack s) 0 (length (bfs_upto W H s K)) = bfs_upto W H s K"


text \<open>The same pass after the Ordering stage.\<close>

definition ordered5 :: state where
  "ordered5 = projr (GenerateOrder 5 5 donated5)"


text \<open>
  The six stages executed \<open>n\<close> times, one pass after the other; this is what the loop of
  \<open>run\<close> is compared with.
\<close>

fun pipeline_times :: "int \<Rightarrow> int \<Rightarrow> nat \<Rightarrow> state \<Rightarrow> (error + state) option" where
  "pipeline_times W H 0 s = Some (Inr s)"
| "pipeline_times W H (Suc n) s =
     (case step W H s of
        None \<Rightarrow> None
      | Some (Inl e) \<Rightarrow> Some (Inl e)
      | Some (Inr s') \<Rightarrow> pipeline_times W H n s')"

text \<open>The first pass on a 2 x 2 grid, up to the Ordering stage.\<close>

definition start2 :: state where
  "start2 = run_init 2 2 (constructor 2 2 (\<lambda>_. 1 / 2) grid5)"

definition donated2 :: state where
  "donated2 = ComputeDonors 2 2 (ComputeReceivers 2 2 start2)"

definition ordered2 :: state where
  "ordered2 = projr (GenerateOrder 2 2 donated2)"

section \<open>Basic facts\<close>

lemma upto_0_7: "[0..7] = [0, 1, 2, 3, 4, 5, 6, 7]"
  by (simp add: upto_rec1)

lemma nshift_simps:
  "nshift W 0 = - 1" "nshift W 1 = - W - 1" "nshift W 2 = - W" "nshift W 3 = - W + 1"
  "nshift W 4 = 1" "nshift W 5 = W + 1" "nshift W 6 = W" "nshift W 7 = W - 1"
  by (simp_all add: nshift_def)

lemma dr_simps:
  "dr 0 = 1" "dr 1 = SQRT2" "dr 2 = 1" "dr 3 = SQRT2"
  "dr 4 = 1" "dr 5 = SQRT2" "dr 6 = 1" "dr 7 = SQRT2"
  by (simp_all add: dr_def)

lemma SQRT2_gt1: "1 < SQRT2"
  by (simp add: SQRT2_def)

lemma dir_cases:
  assumes "0 \<le> n" "n \<le> 7"
  shows "n \<in> {0, 1, 2, 3, 4, 5, 6, 7::int}"
  using assms by auto

lemma dr_pos: "0 \<le> n \<Longrightarrow> n \<le> 7 \<Longrightarrow> 0 < dr n"
  using SQRT2_gt1 by (auto dest!: dir_cases simp: dr_simps)

lemma set_cells:
  "set (cells W ylo yhi xlo xhi) = {c. \<exists>y x. ylo \<le> y \<and> y < yhi \<and> xlo \<le> x \<and> x < xhi \<and> c = y * W + x}"
  apply (auto simp: cells_def)
  subgoal for c y by (intro exI[of _ y] conjI exI[of _ "c - y * W"]) auto
  done

lemma ComputeReceivers_eq:
  "ComputeReceivers W H s =
     s\<lparr>rec := (\<lambda>c. if c \<in> set (interior W H) then steepest W (h s) c else rec s c)\<rparr>"
proof -
  have "fold (\<lambda>c s. s\<lparr>rec := (rec s)(c := steepest W (h s) c)\<rparr>) xs s =
     s\<lparr>rec := (\<lambda>c. if c \<in> set xs then steepest W (h s) c else rec s c)\<rparr>" for xs
    by (induction xs arbitrary: s) (auto simp: fun_eq_iff intro!: arg_cong[where f="\<lambda>r. rec_update r s" for s])
  then show ?thesis by (simp add: ComputeReceivers_def)
qed

lemma fold_donor_step:
  "fold (donor_step W r c) ds (dn, nd) =
     (\<lambda>j. if 8 * c + nd c \<le> j \<and> j < 8 * c + nd c + int (length (ptr W r c ds))
           then ptr W r c ds ! nat (j - (8 * c + nd c)) else dn j,
      nd(c := nd c + int (length (ptr W r c ds))))"
proof (induction ds arbitrary: dn nd)
  case Nil
  then show ?case by (auto simp add: ptr_def fun_eq_iff)
next
  case (Cons d ds)
  let ?n = "c + nshift W d"
  show ?case
  proof (cases "r ?n \<noteq> NO_FLOW \<and> ?n + nshift W (r ?n) = c")
    case True
    then have p: "ptr W r c (d # ds) = ?n # ptr W r c ds" by (simp add: ptr_def)
    have s: "donor_step W r c d (dn, nd) = (dn(8 * c + nd c := ?n), nd(c := nd c + 1))"
      using True by (simp add: donor_step_def Let_def)
    have e: "nat (x - (b + (a + 1))) = nat (x - (b + a)) - Suc 0" for x a b :: int by arith
    show ?thesis
      unfolding fold_simps s p Cons.IH
      by (auto simp: fun_eq_iff nth_Cons' e)
  next
    case False
    then have p: "ptr W r c (d # ds) = ptr W r c ds" by (auto simp add: ptr_def)
    have s: "donor_step W r c d (dn, nd) = (dn, nd)"
      using False by (auto simp add: donor_step_def Let_def)
    show ?thesis
      unfolding fold_simps s p Cons.IH ..
  qed
qed


lemma ptr_pointing: "ptr W r c [0..7] = pointing_neighbours W r c"
  by (simp add: ptr_def pointing_neighbours_def)

lemma length_pointing: "length (pointing_neighbours W r c) \<le> 8"
proof -
  have "length (pointing_neighbours W r c) \<le> length (map (\<lambda>ni. c + nshift W ni) [0..7])"
    unfolding pointing_neighbours_def by (rule length_filter_le)
  then show ?thesis by (simp add: upto_0_7)
qed

lemma donor_cell_eq:
  "donor_cell W r c (dn, nd) =
     (\<lambda>j. if 8 * c \<le> j \<and> j < 8 * c + int (length (pointing_neighbours W r c))
           then pointing_neighbours W r c ! nat (j - 8 * c) else dn j,
      nd(c := int (length (pointing_neighbours W r c))))"
  by (simp add: donor_cell_def fold_donor_step ptr_pointing cong: if_cong)

lemma fold_donor_cell:
  assumes "fold (donor_cell W r) cs (dn, nd) = (dn', nd')"
  shows "(\<forall>c. c \<notin> set cs \<longrightarrow> nd' c = nd c)
       \<and> (\<forall>c \<in> set cs. nd' c = int (length (pointing_neighbours W r c)))
       \<and> (\<forall>c \<in> set cs. \<forall>k < length (pointing_neighbours W r c).
             dn' (8 * c + int k) = pointing_neighbours W r c ! k)
       \<and> (\<forall>j. (\<forall>c \<in> set cs. \<not> (8 * c \<le> j \<and> j < 8 * c + 8)) \<longrightarrow> dn' j = dn j)"
  using assms
proof (induction cs arbitrary: dn' nd' rule: rev_induct)
  case Nil
  then show ?case by simp
next
  case (snoc x xs)
  obtain dn1 nd1 where 1: "fold (donor_cell W r) xs (dn, nd) = (dn1, nd1)"
    by (cases "fold (donor_cell W r) xs (dn, nd)")
  note IH = snoc.IH[OF 1]
  have 2: "dn' = (\<lambda>j. if 8 * x \<le> j \<and> j < 8 * x + int (length (pointing_neighbours W r x))
           then pointing_neighbours W r x ! nat (j - 8 * x) else dn1 j)"
    and 3: "nd' = nd1(x := int (length (pointing_neighbours W r x)))"
    using snoc.prems by (simp_all add: 1 donor_cell_eq)
  have len: "int (length (pointing_neighbours W r c)) \<le> 8" for c
    using length_pointing[of W r c] by simp
  show ?case
  proof (intro conjI allI ballI impI)
    fix c assume "c \<notin> set (xs @ [x])"
    then show "nd' c = nd c" using IH by (simp add: 3)
  next
    fix c assume "c \<in> set (xs @ [x])"
    then show "nd' c = int (length (pointing_neighbours W r c))" using IH by (auto simp: 3)
  next
    fix c k assume c: "c \<in> set (xs @ [x])" and k: "k < length (pointing_neighbours W r c)"
    show "dn' (8 * c + int k) = pointing_neighbours W r c ! k"
    proof (cases "c = x")
      case True
      then show ?thesis using k by (simp add: 2)
    next
      case False
      then have "\<not> (8 * x \<le> 8 * c + int k \<and> 8 * c + int k < 8 * x + int (length (pointing_neighbours W r x)))"
        using len[of x] len[of c] k by arith
      then have "dn' (8 * c + int k) = dn1 (8 * c + int k)" unfolding 2 by presburger
      then show ?thesis using IH c k False by auto
    qed
  next
    fix j assume j: "\<forall>c \<in> set (xs @ [x]). \<not> (8 * c \<le> j \<and> j < 8 * c + 8)"
    then have "\<not> (8 * x \<le> j \<and> j < 8 * x + int (length (pointing_neighbours W r x)))"
      using len[of x] by auto
    then have "dn' j = dn1 j" unfolding 2 by presburger
    then show "dn' j = dn j" using IH j by auto
  qed
qed

lemma ComputeDonors_other [simp]:
  "h (ComputeDonors W H s) = h s" "rec (ComputeDonors W H s) = rec s"
  "accum (ComputeDonors W H s) = accum s" "stack (ComputeDonors W H s) = stack s"
  "levels (ComputeDonors W H s) = levels s" "nlevel (ComputeDonors W H s) = nlevel s"
  by (simp_all add: ComputeDonors_def split: prod.splits)

lemma ndon_ComputeDonors:
  "ndon (ComputeDonors W H s) c =
     (if c \<in> set (frame W H) then int (length (pointing_neighbours W (rec s) c)) else ndon s c)"
proof -
  obtain dn' nd' where 1: "fold (donor_cell W (rec s)) (frame W H) (donor s, ndon s) = (dn', nd')"
    by (cases "fold (donor_cell W (rec s)) (frame W H) (donor s, ndon s)")
  have "ndon (ComputeDonors W H s) = nd'" by (simp add: ComputeDonors_def 1)
  then show ?thesis using fold_donor_cell[OF 1] by auto
qed

lemma donor_ComputeDonors:
  assumes "c \<in> set (frame W H)" "k < length (pointing_neighbours W (rec s) c)"
  shows "donor (ComputeDonors W H s) (8 * c + int k) = pointing_neighbours W (rec s) c ! k"
proof -
  obtain dn' nd' where 1: "fold (donor_cell W (rec s)) (frame W H) (donor s, ndon s) = (dn', nd')"
    by (cases "fold (donor_cell W (rec s)) (frame W H) (donor s, ndon s)")
  have "donor (ComputeDonors W H s) = dn'" by (simp add: ComputeDonors_def 1)
  then show ?thesis using fold_donor_cell[OF 1] assms by auto
qed

lemma map_upto_nth: "map (\<lambda>k. f (int k)) [0..<n] = map (\<lambda>k. f k) [0..int n - 1]"
proof (induction n)
  case 0
  then show ?case by simp
next
  case (Suc n)
  have "[0..int (Suc n) - 1] = [0..int n - 1] @ [int n]"
    using upto_rec2[of 0 "int n"] by simp
  then show ?case using Suc by simp
qed

lemma donor_slots_ComputeDonors:
  assumes "c \<in> set (frame W H)"
  shows "donor_slots (ComputeDonors W H s) c = pointing_neighbours W (rec s) c"
proof -
  let ?pn = "pointing_neighbours W (rec s) c"
  have "donor_slots (ComputeDonors W H s) c
      = map (\<lambda>k. donor (ComputeDonors W H s) (8 * c + k)) [0..int (length ?pn) - 1]"
    using assms by (simp add: donor_slots_def ndon_ComputeDonors)
  also have "\<dots> = map (\<lambda>k. donor (ComputeDonors W H s) (8 * c + int k)) [0..<length ?pn]"
    by (rule map_upto_nth[symmetric])
  also have "\<dots> = map (\<lambda>k. ?pn ! k) [0..<length ?pn]"
    using assms by (simp add: donor_ComputeDonors)
  also have "\<dots> = ?pn" by (rule map_nth)
  finally show ?thesis .
qed

lemma frame_in_grid:
  assumes "c \<in> set (frame W H)"
  shows "0 \<le> c \<and> c < W * H \<and> 3 \<le> W \<and> 3 \<le> H"
proof -
  from assms obtain y x where yx: "1 \<le> y" "y < H - 1" "1 \<le> x" "x < W - 1" "c = y * W + x"
    by (auto simp: frame_def set_cells)
  then have W: "3 \<le> W" and H: "3 \<le> H" by auto
  have "y * W \<le> (H - 2) * W" using yx W by (intro mult_right_mono) auto
  then have "c < W * H" using yx by (simp add: algebra_simps)
  moreover have "0 \<le> y * W" using yx W by simp
  ultimately show ?thesis using yx W H by auto
qed






subsection \<open>Cells and coordinates\<close>

lemma coords_unique:
  assumes "0 \<le> x" "x < W" "0 \<le> x'" "x' < W" "y * W + x = y' * W + (x'::int)"
  shows "y = y' \<and> x = x'"
proof -
  have a: "(y * W + x) mod W = x" using assms(1,2) by simp
  have b: "(y' * W + x') mod W = x'" using assms(3,4) by simp
  have x: "x = x'" using a[unfolded assms(5)] b by simp
  then have "y * W = y' * W" using assms(5) by simp
  then show ?thesis using x assms by auto
qed

lemma in_all_cells: "c \<in> set (all_cells W H) \<longleftrightarrow> (\<exists>y x. 0 \<le> y \<and> y < H \<and> 0 \<le> x \<and> x < W \<and> c = y * W + x)"
  by (simp add: all_cells_def set_cells)

lemma in_frame: "c \<in> set (frame W H) \<longleftrightarrow> (\<exists>y x. 1 \<le> y \<and> y < H - 1 \<and> 1 \<le> x \<and> x < W - 1 \<and> c = y * W + x)"
  by (simp add: frame_def set_cells)

lemma in_interior: "c \<in> set (interior W H) \<longleftrightarrow> (\<exists>y x. 2 \<le> y \<and> y < H - 2 \<and> 2 \<le> x \<and> x < W - 2 \<and> c = y * W + x)"
  by (simp add: interior_def set_cells)

lemma interior_frame: "c \<in> set (interior W H) \<Longrightarrow> c \<in> set (frame W H)"
proof -
  assume "c \<in> set (interior W H)"
  then obtain y x where "2 \<le> y" "y < H - 2" "2 \<le> x" "x < W - 2" "c = y * W + x"
    by (auto simp: in_interior)
  then have "1 \<le> y \<and> y < H - 1 \<and> 1 \<le> x \<and> x < W - 1 \<and> c = y * W + x" by simp
  then show ?thesis unfolding in_frame by blast
qed

lemma frame_all_cells: "c \<in> set (frame W H) \<Longrightarrow> c \<in> set (all_cells W H)"
proof -
  assume "c \<in> set (frame W H)"
  then obtain y x where "1 \<le> y" "y < H - 1" "1 \<le> x" "x < W - 1" "c = y * W + x"
    by (auto simp: in_frame)
  then have "0 \<le> y \<and> y < H \<and> 0 \<le> x \<and> x < W \<and> c = y * W + x" by simp
  then show ?thesis unfolding in_all_cells by blast
qed

lemma outer_rings_iff:
  "c \<in> outer_rings W H \<longleftrightarrow> c \<in> set (all_cells W H) \<and> c \<notin> set (interior W H)"
proof
  assume "c \<in> outer_rings W H"
  then obtain y x where yx: "0 \<le> y" "y < H" "0 \<le> x" "x < W" "c = y * W + x"
      "x \<in> {0, 1, W - 2, W - 1} \<or> y \<in> {0, 1, H - 2, H - 1}"
    by (auto simp: outer_rings_def)
  have "c \<notin> set (interior W H)"
  proof
    assume "c \<in> set (interior W H)"
    then obtain y' x' where i: "2 \<le> y'" "y' < H - 2" "2 \<le> x'" "x' < W - 2" "c = y' * W + x'"
      by (auto simp: in_interior)
    have "y = y' \<and> x = x'"
      using coords_unique[of x W x' y y'] yx i by auto
    then show False using yx i by auto
  qed
  then show "c \<in> set (all_cells W H) \<and> c \<notin> set (interior W H)"
    using yx by (auto simp: in_all_cells)
next
  assume a: "c \<in> set (all_cells W H) \<and> c \<notin> set (interior W H)"
  then obtain y x where yx: "0 \<le> y" "y < H" "0 \<le> x" "x < W" "c = y * W + x"
    by (auto simp: in_all_cells)
  with a have "\<not> (2 \<le> y \<and> y < H - 2 \<and> 2 \<le> x \<and> x < W - 2)"
    by (auto simp: in_interior)
  then have "x \<in> {0, 1, W - 2, W - 1} \<or> y \<in> {0, 1, H - 2, H - 1}"
    using yx by auto
  then show "c \<in> outer_rings W H" using yx unfolding outer_rings_def by blast
qed

subsection \<open>What each stage writes\<close>

lemma cells_product:
  "cells W ylo yhi xlo xhi =
     map (\<lambda>(y, x). y * W + x) (List.product [ylo..yhi - 1] [xlo..xhi - 1])"
  by (simp add: cells_def product_concat_map map_concat comp_def)

lemma distinct_cells:
  assumes "0 \<le> xlo" "xhi \<le> W"
  shows "distinct (cells W ylo yhi xlo xhi)"
proof -
  have "inj_on (\<lambda>(y, x). y * W + x) (set (List.product [ylo..yhi - 1] [xlo..xhi - 1]))"
  proof (rule inj_onI)
    fix p q
    assume p: "p \<in> set (List.product [ylo..yhi - 1] [xlo..xhi - 1])"
      and q: "q \<in> set (List.product [ylo..yhi - 1] [xlo..xhi - 1])"
      and e: "(case p of (y, x) \<Rightarrow> y * W + x) = (case q of (y, x) \<Rightarrow> y * W + x)"
    obtain y x y' x' where pq: "p = (y, x)" "q = (y', x')" by (cases p, cases q) auto
    have "y = y' \<and> x = x'"
      using coords_unique[of x W x' y y'] assms p q e by (simp add: pq)
    then show "p = q" by (simp add: pq)
  qed
  then show ?thesis
    unfolding cells_product by (simp add: distinct_map distinct_product)
qed

lemma fold_fun_upd:
  "fold (\<lambda>i f. f(i := g i)) xs f = (\<lambda>i. if i \<in> set xs then g i else f i)"
  by (induction xs arbitrary: f) (auto simp: fun_eq_iff)

lemma AddUplift_eq:
  "AddUplift W H s =
     s\<lparr>h := (\<lambda>c. if c \<in> set (interior W H) then h s c + ueq * dt else h s c)\<rparr>"
proof -
  have "distinct xs \<Longrightarrow> fold (\<lambda>c s. s\<lparr>h := (h s)(c := h s c + ueq * dt)\<rparr>) xs s =
     s\<lparr>h := (\<lambda>c. if c \<in> set xs then h s c + ueq * dt else h s c)\<rparr>" for xs
  proof (induction xs arbitrary: s)
    case Nil
    then show ?case by simp
  next
    case (Cons x xs)
    then show ?case
      by (auto simp: fun_eq_iff intro!: arg_cong[where f="\<lambda>r. h_update r t" for t :: state])
  qed
  moreover have "distinct (interior W H)"
  proof (cases "2 \<le> W - 2")
    case True
    then show ?thesis unfolding interior_def by (intro distinct_cells) auto
  next
    case False
    then have "set (interior W H) = {}" by (auto simp: interior_def set_cells)
    then show ?thesis by simp
  qed
  ultimately show ?thesis by (simp add: AddUplift_def)
qed

lemma run_init_eq:
  "run_init W H s =
     s\<lparr>rec := (\<lambda>i. if 0 \<le> i \<and> i < W * H then NO_FLOW else rec s i),
       ndon := (\<lambda>i. if 0 \<le> i \<and> i < W * H then 0 else ndon s i)\<rparr>"
proof -
  have r: "fold (\<lambda>i s. s\<lparr>rec := (rec s)(i := NO_FLOW)\<rparr>) xs s =
     s\<lparr>rec := (\<lambda>i. if i \<in> set xs then NO_FLOW else rec s i)\<rparr>" for xs and s :: state
    by (induction xs arbitrary: s)
       (auto simp: fun_eq_iff intro!: arg_cong[where f="\<lambda>r. rec_update r t" for t :: state])
  have n: "fold (\<lambda>i s. s\<lparr>ndon := (ndon s)(i := 0)\<rparr>) xs s =
     s\<lparr>ndon := (\<lambda>i. if i \<in> set xs then 0 else ndon s i)\<rparr>" for xs and s :: state
    by (induction xs arbitrary: s)
       (auto simp: fun_eq_iff intro!: arg_cong[where f="\<lambda>r. ndon_update r t" for t :: state])
  have f: "(\<lambda>i. if i \<in> set [0..W * H - 1] then a else b i)
      = (\<lambda>i. if 0 \<le> i \<and> i < W * H then a else b i)" for a :: int and b
    by (auto simp: fun_eq_iff)
  show ?thesis
    unfolding run_init_def Let_def r n f by (simp cong: if_cong)
qed


lemma terrain_row:
  "terrain_row_fill W t y hh =
     (\<lambda>c. if 0 \<le> c - y * W \<and> c - y * W < W then t y (c - y * W) else hh c)"
proof -
  have e: "y * W + a - y * W = a" "b = y * W + (b - y * W)" for a b by simp_all
  have "fold (\<lambda>x hh. hh(y * W + x := t y x)) xs hh =
     (\<lambda>c. if c - y * W \<in> set xs then t y (c - y * W) else hh c)" for xs
    by (induction xs arbitrary: hh) (auto simp: fun_eq_iff e)
  then show ?thesis by (auto simp: terrain_row_fill_def fun_eq_iff)
qed

lemma terrain_frame:
  assumes "\<forall>y \<in> set ys. \<forall>x. 0 \<le> x \<and> x < W \<longrightarrow> c \<noteq> y * W + x"
  shows "fold (terrain_row_fill W t) ys hh c = hh c"
  using assms
proof (induction ys arbitrary: hh)
  case Nil
  then show ?case by simp
next
  case (Cons y ys)
  have "\<not> (0 \<le> c - y * W \<and> c - y * W < W)"
    using Cons.prems by (auto dest!: spec[of _ "c - y * W"])
  then have "terrain_row_fill W t y hh c = hh c" by (auto simp: terrain_row)
  then show ?case using Cons by simp
qed

lemma terrain_value:
  assumes "0 \<le> x" "x < W" "y \<in> set ys"
  shows "fold (terrain_row_fill W t) ys hh (y * W + x) = t y x"
  using assms(3)
proof (induction ys arbitrary: hh)
  case Nil
  then show ?case by simp
next
  case (Cons y' ys)
  show ?case
  proof (cases "y \<in> set ys")
    case True
    then show ?thesis using Cons.IH by simp
  next
    case False
    then have y: "y' = y" using Cons.prems by simp
    have "\<forall>z \<in> set ys. \<forall>x'. 0 \<le> x' \<and> x' < W \<longrightarrow> y * W + x \<noteq> z * W + x'"
      using False coords_unique[of x W _ y] assms(1,2) by blast
    then have "fold (terrain_row_fill W t) ys (terrain_row_fill W t y hh) (y * W + x)
        = terrain_row_fill W t y hh (y * W + x)"
      by (rule terrain_frame)
    also have "\<dots> = t y x" using assms(1,2) by (simp add: terrain_row)
    finally show ?thesis by (simp add: y)
  qed
qed

lemma GenerateRandomTerrain_cell:
  assumes "0 \<le> y" "y < H" "0 \<le> x" "x < W"
  shows "GenerateRandomTerrain W H draw h0 (y * W + x) = terrain_cell W H draw y x"
proof -
  have "GenerateRandomTerrain W H draw h0 =
      fold (terrain_row_fill W (terrain_cell W H draw)) [0..H - 1] h0"
    by (simp add: GenerateRandomTerrain_def terrain_row_fill_def[abs_def])
  then show ?thesis using assms by (simp add: terrain_value)
qed

subsection \<open>The Newton--Raphson loop\<close>


lemma cpow_neq: "cpow x neq = x ^ 2" "cpow x (neq - 1) = x"
  by (simp_all add: cpow_def neq_def)

lemma newton_stop: "\<bar>d\<bar> \<le> tol \<Longrightarrow> newton factr h0 hn x hp d = Some x"
  by (subst newton.simps) simp

lemma newton_unfold:
  "\<bar>d\<bar> > tol \<Longrightarrow>
     newton factr h0 hn x hp d =
       newton factr h0 hn (newton_step factr h0 hn x) (newton_step factr h0 hn x)
         (newton_step factr h0 hn x - hp)"
  by (subst newton.simps) (simp add: newton_step_def Let_def)

lemma newton_step_props:
  assumes f: "0 \<le> factr" and x: "hn \<le> x" and F: "0 \<le> x - h0 + factr * (x - hn) ^ 2"
    and h: "hn \<le> h0"
  defines "x' \<equiv> newton_step factr h0 hn x"
  shows "x' \<le> x" and "hn \<le> x'" and "0 \<le> x' - h0 + factr * (x' - hn) ^ 2"
proof -
  let ?u = "x - hn"
  let ?D = "1 + factr * 2 * ?u"
  let ?F = "x - h0 + factr * ?u ^ 2"
  have D: "1 \<le> ?D" using f x by simp
  have x': "x' = x - ?F / ?D"
    unfolding x'_def newton_step_def cpow_neq by (simp add: neq_def)
  have q: "0 \<le> ?F / ?D" using F D by simp
  show "x' \<le> x" using q by (simp add: x')
  have "?F \<le> ?u * ?D"
  proof -
    have "?u * ?D - ?F = (h0 - hn) + factr * ?u ^ 2" by (simp add: algebra_simps power2_eq_square)
    moreover have "0 \<le> (h0 - hn) + factr * ?u ^ 2" using f h by simp
    ultimately show ?thesis by linarith
  qed
  then have "?F / ?D \<le> ?u" using D by (simp add: pos_divide_le_eq)
  then show "hn \<le> x'" by (simp add: x')
  define d where "d = ?F / ?D"
  have dD: "d * ?D = ?F" using D by (simp add: d_def)
  have xd: "x' = x - d" by (simp add: x' d_def)
  have "x' - h0 + factr * (x' - hn) ^ 2 = ?F - d * ?D + factr * d ^ 2"
    unfolding xd by (simp add: algebra_simps power2_eq_square)
  also have "\<dots> = factr * d ^ 2" by (simp only: dD)
  finally show "0 \<le> x' - h0 + factr * (x' - hn) ^ 2" using f by simp
qed

lemma newton_converges_aux:
  assumes f: "0 \<le> factr" and h: "hn \<le> h0"
  shows "hn \<le> x \<Longrightarrow> 0 \<le> x - h0 + factr * (x - hn) ^ 2 \<Longrightarrow> x - hn \<le> real k * tol \<Longrightarrow>
         \<exists>r. newton factr h0 hn x x d = Some r \<and> hn \<le> r \<and> r \<le> x"
proof (induction k arbitrary: x d)
  case 0
  then have xh: "x = hn" by simp
  show ?case
  proof (cases "\<bar>d\<bar> \<le> tol")
    case True
    then show ?thesis using 0 by (simp add: newton_stop)
  next
    case False
    let ?x' = "newton_step factr h0 hn x"
    have "?x' \<le> x" "hn \<le> ?x'" using newton_step_props[OF f "0.prems"(1,2) h] by simp_all
    then have e: "?x' = x" using xh by simp
    have "newton factr h0 hn x x d = newton factr h0 hn ?x' ?x' (?x' - x)"
      using False by (simp add: newton_unfold)
    also have "\<dots> = Some x" unfolding e by (rule newton_stop) (simp add: tol_def)
    finally show ?thesis using xh by simp
  qed
next
  case (Suc k)
  show ?case
  proof (cases "\<bar>d\<bar> \<le> tol")
    case True
    then show ?thesis using Suc.prems by (simp add: newton_stop)
  next
    case False
    let ?x' = "newton_step factr h0 hn x"
    note p = newton_step_props[OF f Suc.prems(1,2) h]
    have u: "newton factr h0 hn x x d = newton factr h0 hn ?x' ?x' (?x' - x)"
      using False by (simp add: newton_unfold)
    show ?thesis
    proof (cases "\<bar>?x' - x\<bar> \<le> tol")
      case True
      then have "newton factr h0 hn ?x' ?x' (?x' - x) = Some ?x'" by (rule newton_stop)
      then show ?thesis using u p by simp
    next
      case False
      then have "x - ?x' > tol" using p(1) by simp
      then have "?x' - hn \<le> real k * tol" using Suc.prems(3) by (simp add: algebra_simps)
      from Suc.IH[OF p(2) p(3) this, of "?x' - x"]
      obtain r where "newton factr h0 hn ?x' ?x' (?x' - x) = Some r" "hn \<le> r" "r \<le> ?x'"
        by blast
      then show ?thesis using u p(1) by auto
    qed
  qed
qed

lemma newton_converges:
  assumes "0 \<le> factr" and "hn \<le> h0"
  shows "\<exists>r. newton factr h0 hn h0 h0 (2 * tol) = Some r \<and> hn \<le> r \<and> r \<le> h0"
proof -
  obtain k :: nat where k: "(h0 - hn) / tol \<le> real k"
    using real_arch_simple by blast
  have "h0 - hn \<le> real k * tol" using k by (simp add: tol_def field_simps)
  moreover have "0 \<le> h0 - h0 + factr * (h0 - hn) ^ 2" using assms by simp
  ultimately show ?thesis
    using newton_converges_aux[OF assms, of h0 k "2 * tol"] assms(2) by simp
qed

subsection \<open>The steepest-descent scan\<close>

lemma upto_snoc: "[0..int (Suc k) - 1] = [0..int k - 1] @ [int k]"
  using upto_rec2[of 0 "int k"] by simp

lemma steepest_prefix:
  assumes "fold (rec_step W hh c) [0..int k - 1] (0, NO_FLOW) = (m, n)"
  shows "(n = NO_FLOW \<and> m = 0 \<and> (\<forall>i. 0 \<le> i \<and> i < int k \<longrightarrow> slope W hh c i \<le> 0))
       \<or> (0 \<le> n \<and> n < int k \<and> m = slope W hh c n \<and> 0 < m
          \<and> (\<forall>i. 0 \<le> i \<and> i < int k \<longrightarrow> slope W hh c i \<le> m)
          \<and> (\<forall>i. 0 \<le> i \<and> i < n \<longrightarrow> slope W hh c i < m))"
  using assms
proof (induction k arbitrary: m n)
  case 0
  then show ?case by simp
next
  case (Suc k)
  obtain m1 n1 where 1: "fold (rec_step W hh c) [0..int k - 1] (0, NO_FLOW) = (m1, n1)"
    by (cases "fold (rec_step W hh c) [0..int k - 1] (0, NO_FLOW)")
  note IH = Suc.IH[OF 1]
  have 2: "rec_step W hh c (int k) (m1, n1) = (m, n)"
    using Suc.prems by (simp add: upto_snoc 1 del: of_nat_Suc)
  have lt: "i < int (Suc k) \<longleftrightarrow> i < int k \<or> i = int k" for i by auto
  show ?case
  proof (cases "slope W hh c (int k) > m1")
    case True
    then have mn: "m = slope W hh c (int k)" "n = int k" using 2 by (auto simp add: rec_step_def)
    have "0 \<le> m1" using IH by auto
    then have "slope W hh c i \<le> m" if "0 \<le> i" "i < int (Suc k)" for i
      using IH True that unfolding lt mn by (metis less_eq_real_def order_trans)
    moreover have "slope W hh c i < m" if "0 \<le> i" "i < n" for i
      using IH True that unfolding mn by (metis le_less_trans)
    ultimately show ?thesis using True \<open>0 \<le> m1\<close> mn by auto
  next
    case False
    then have mn: "m = m1" "n = n1" using 2 by (auto simp add: rec_step_def)
    show ?thesis using IH False unfolding lt mn by (elim disjE) auto
  qed
qed

lemma steepest_props:
  "(steepest W hh c = NO_FLOW \<and> (\<forall>i. 0 \<le> i \<and> i \<le> 7 \<longrightarrow> slope W hh c i \<le> 0))
   \<or> (0 \<le> steepest W hh c \<and> steepest W hh c \<le> 7 \<and> 0 < slope W hh c (steepest W hh c)
      \<and> (\<forall>i. 0 \<le> i \<and> i \<le> 7 \<longrightarrow> slope W hh c i \<le> slope W hh c (steepest W hh c))
      \<and> (\<forall>i. 0 \<le> i \<and> i < steepest W hh c \<longrightarrow> slope W hh c i < slope W hh c (steepest W hh c)))"
proof -
  obtain m n where 1: "fold (rec_step W hh c) [0..int 8 - 1] (0, NO_FLOW) = (m, n)"
    by (cases "fold (rec_step W hh c) [0..int 8 - 1] (0, NO_FLOW)")
  then have n: "steepest W hh c = n" by (simp add: steepest_def)
  show ?thesis using steepest_prefix[OF 1] unfolding n by auto
qed

lemma slope_pos_iff:
  assumes "0 \<le> i" "i \<le> 7"
  shows "0 < slope W hh c i \<longleftrightarrow> hh (c + nshift W i) < hh c"
  using dr_pos[OF assms] by (simp add: slope_def zero_less_divide_iff)

lemma steepest_descends:
  assumes "steepest W hh c \<noteq> NO_FLOW"
  shows "0 \<le> steepest W hh c \<and> steepest W hh c \<le> 7
       \<and> hh (c + nshift W (steepest W hh c)) < hh c"
  using steepest_props[of W hh c] assms slope_pos_iff[of "steepest W hh c" W hh c] by auto

subsection \<open>Fields that a stage leaves alone\<close>

lemma fold_err_inv:
  assumes "\<And>x s s'. f x s = Inr s' \<Longrightarrow> P s \<Longrightarrow> P s'"
    and "fold_err f xs s = Inr s'" and "P s"
  shows "P s'"
  using assms(2,3)
proof (induction xs arbitrary: s)
  case Nil
  then show ?case by simp
next
  case (Cons x xs)
  then show ?case using assms(1) by (auto split: sum.splits)
qed

lemma fold_opt_inv:
  assumes "\<And>x s s'. f x s = Some s' \<Longrightarrow> P s \<Longrightarrow> P s'"
    and "fold_opt f xs s = Some s'" and "P s"
  shows "P s'"
  using assms(2,3)
proof (induction xs arbitrary: s)
  case Nil
  then show ?case by simp
next
  case (Cons x xs)
  then show ?case using assms(1) by (auto split: option.splits)
qed

lemma fold_inv:
  assumes "\<And>x s. P s \<Longrightarrow> P (f x s)" and "P s"
  shows "P (fold f xs s)"
  using assms(2) by (induction xs arbitrary: s) (auto intro: assms(1))


lemma order_only_refl [simp]: "order_only s s"
  by (simp add: order_only_def)

lemma order_only_trans: "order_only s t \<Longrightarrow> order_only t u \<Longrightarrow> order_only s u"
  by (simp add: order_only_def)

lemma push_seed_only: "push_seed sw c (s, n) = Inr (s', n') \<Longrightarrow> order_only s s'"
  by (auto simp: push_seed_def order_only_def split: if_splits)

lemma push_donor_only: "push_donor sw c k (s, n) = Inr (s', n') \<Longrightarrow> order_only s s'"
  by (auto simp: push_donor_def order_only_def Let_def split: if_splits)

lemma push_donors_only:
  assumes "push_donors sw si (s, n) = Inr (s', n')"
  shows "order_only s s'"
proof -
  have "order_only s (fst (s', n'))"
    using assms unfolding push_donors_def Let_def prod.case
    by (rule fold_err_inv[where P="\<lambda>sn. order_only s (fst sn)", rotated])
       (auto dest!: push_donor_only intro: order_only_trans)
  then show ?thesis by simp
qed

lemma new_level_only: "order_only s (fst (new_level (s, n)))"
  by (simp add: new_level_def order_only_def)

lemma order_loop_only:
  "order_loop sw (b, t, s, n) = Inr (s', n') \<Longrightarrow> order_only s s'"
proof (induction sw "(b, t, s, n)" arbitrary: b t s n rule: order_loop.induct)
  case (1 sw b t s n)
  show ?case
  proof (cases "b < t")
    case False
    then show ?thesis using "1.prems" by simp
  next
    case True
    then obtain s1 n1 where f: "fold_err (push_donors sw) [t..n - 1] (s, n) = Inr (s1, n1)"
      using "1.prems" by (auto split: sum.splits)
    have "order_only s (fst (s1, n1))"
      using f by (rule fold_err_inv[where P="\<lambda>sn. order_only s (fst sn)", rotated])
         (auto dest!: push_donors_only intro: order_only_trans)
    then have a: "order_only s s1" by simp
    obtain s2 n2 where nl: "new_level (s1, n1) = (s2, n2)" by (cases "new_level (s1, n1)")
    have b: "order_only s1 s2" using new_level_only[of s1 n1] by (simp add: nl)
    have "order_loop sw (t, n, s2, n2) = Inr (s', n')"
      using "1.prems" True f nl by simp
    from "1.hyps"[OF True f nl this] have "order_only s2 s'" .
    then show ?thesis using a b by (blast intro: order_only_trans)
  qed
qed

lemma GenerateOrder_only:
  assumes "GenerateOrder W H s = Inr s'"
  shows "order_only s s'"
proof -
  let ?s0 = "s\<lparr>levels := (levels s)(0 := 0), nlevel := 1\<rparr>"
  from assms obtain s1 n1 where 1: "fold_err (push_seed (stack_width W H)) (frame W H) (?s0, 0) = Inr (s1, n1)"
    by (auto simp: GenerateOrder_def Let_def split: sum.splits)
  obtain s2 n2 where 2: "new_level (s1, n1) = (s2, n2)" by (cases "new_level (s1, n1)")
  from assms 1 2 obtain s3 n3 where 3: "order_loop (stack_width W H) (- 1, 0, s2, n2) = Inr (s3, n3)"
    and 4: "s' = s3\<lparr>nlevel := nlevel s3 - 1\<rparr>"
    by (auto simp: GenerateOrder_def Let_def split: sum.splits if_splits)
  have a: "order_only s ?s0" by (simp add: order_only_def)
  have "order_only ?s0 (fst (s1, n1))"
    using 1 by (rule fold_err_inv[where P="\<lambda>sn. order_only ?s0 (fst sn)", rotated])
       (auto dest!: push_seed_only intro: order_only_trans)
  then have b: "order_only ?s0 s1" by simp
  have c: "order_only s1 s2" using new_level_only[of s1 n1] by (simp add: 2)
  have d: "order_only s2 s3" using 3 by (rule order_loop_only)
  have e: "order_only s3 s'" by (simp add: 4 order_only_def)
  show ?thesis using a b c d e by (blast intro: order_only_trans)
qed


lemma acc_level_only: "accum_only s t \<Longrightarrow> accum_only s (acc_level W li t)"
proof -
  have c: "accum_only s t \<Longrightarrow> accum_only s (acc_cell W si t)" for si t
    by (simp add: acc_cell_def Let_def accum_only_def)
  show "accum_only s t \<Longrightarrow> accum_only s (acc_level W li t)"
    unfolding acc_level_def by (rule fold_inv) (rule c)
qed

lemma ComputeFlowAcc_only: "accum_only s (ComputeFlowAcc W H s)"
proof -
  have i: "accum_only s (fold (\<lambda>i s. s\<lparr>accum := (accum s)(i := cell_area)\<rparr>) [0..W * H - 1] s)"
    by (rule fold_inv) (auto simp: accum_only_def)
  show ?thesis
    unfolding ComputeFlowAcc_def
    by (rule fold_inv) (auto intro: acc_level_only i)
qed

lemma ComputeFlowAcc_other [simp]:
  "h (ComputeFlowAcc W H s) = h s" "rec (ComputeFlowAcc W H s) = rec s"
  "donor (ComputeFlowAcc W H s) = donor s" "ndon (ComputeFlowAcc W H s) = ndon s"
  "stack (ComputeFlowAcc W H s) = stack s" "levels (ComputeFlowAcc W H s) = levels s"
  "nlevel (ComputeFlowAcc W H s) = nlevel s"
  using ComputeFlowAcc_only[of s W H] by (simp_all add: accum_only_def)

lemma erode_cell_only: "erode_cell W si t = Some t' \<Longrightarrow> h_only s t \<Longrightarrow> h_only s t'"
  by (auto simp: erode_cell_def Let_def h_only_def split: if_splits option.splits)

lemma erode_level_only: "erode_level W li t = Some t' \<Longrightarrow> h_only s t \<Longrightarrow> h_only s t'"
  unfolding erode_level_def by (erule fold_opt_inv[rotated]) (auto intro: erode_cell_only)

lemma Erode_only: "Erode W s = Some s' \<Longrightarrow> h_only s s'"
proof -
  assume a: "Erode W s = Some s'"
  have r: "h_only s s" by (simp add: h_only_def)
  show ?thesis
    using a[unfolded Erode_def] r
    by (rule fold_opt_inv[where P="h_only s", rotated]) (rule erode_level_only)
qed

lemma AddUplift_other [simp]:
  "accum (AddUplift W H s) = accum s" "rec (AddUplift W H s) = rec s"
  "donor (AddUplift W H s) = donor s" "ndon (AddUplift W H s) = ndon s"
  "stack (AddUplift W H s) = stack s" "levels (AddUplift W H s) = levels s"
  "nlevel (AddUplift W H s) = nlevel s"
  by (simp_all add: AddUplift_eq)

lemma ComputeReceivers_other [simp]:
  "h (ComputeReceivers W H s) = h s" "accum (ComputeReceivers W H s) = accum s"
  "donor (ComputeReceivers W H s) = donor s" "ndon (ComputeReceivers W H s) = ndon s"
  "stack (ComputeReceivers W H s) = stack s" "levels (ComputeReceivers W H s) = levels s"
  "nlevel (ComputeReceivers W H s) = nlevel s"
  by (simp_all add: ComputeReceivers_eq)

subsection \<open>Neighbours\<close>

lemma nshift_coords:
  assumes "0 \<le> d" "d \<le> 7"
  obtains dy dx where "- 1 \<le> dy" "dy \<le> 1" "- 1 \<le> dx" "dx \<le> 1" "dy \<noteq> 0 \<or> dx \<noteq> 0"
    "\<And>y x. y * W + x + nshift W d = (y + dy) * W + (x + dx)"
proof -
  have "d \<in> {0, 1, 2, 3, 4, 5, 6, 7}" using assms by (rule dir_cases)
  then consider "d = 0" | "d = 1" | "d = 2" | "d = 3" | "d = 4" | "d = 5" | "d = 6" | "d = 7"
    by auto
  then show ?thesis
  proof cases
    case 1 then show ?thesis using that[of 0 "- 1"] by (simp add: nshift_simps algebra_simps)
  next
    case 2 then show ?thesis using that[of "- 1" "- 1"] by (simp add: nshift_simps algebra_simps)
  next
    case 3 then show ?thesis using that[of "- 1" 0] by (simp add: nshift_simps algebra_simps)
  next
    case 4 then show ?thesis using that[of "- 1" 1] by (simp add: nshift_simps algebra_simps)
  next
    case 5 then show ?thesis using that[of 0 1] by (simp add: nshift_simps algebra_simps)
  next
    case 6 then show ?thesis using that[of 1 1] by (simp add: nshift_simps algebra_simps)
  next
    case 7 then show ?thesis using that[of 1 0] by (simp add: nshift_simps algebra_simps)
  next
    case 8 then show ?thesis using that[of 1 "- 1"] by (simp add: nshift_simps algebra_simps)
  qed
qed

lemma neighbour_of_interior:
  assumes "c \<in> set (interior W H)" "0 \<le> d" "d \<le> 7"
  shows "c + nshift W d \<in> set (frame W H)"
proof -
  from assms(1) obtain y x where yx: "2 \<le> y" "y < H - 2" "2 \<le> x" "x < W - 2" "c = y * W + x"
    by (auto simp: in_interior)
  from nshift_coords[OF assms(2,3), of W] obtain dy dx where
    d: "- 1 \<le> dy" "dy \<le> 1" "- 1 \<le> dx" "dx \<le> 1"
    "\<And>y x. y * W + x + nshift W d = (y + dy) * W + (x + dx)" by metis
  have "1 \<le> y + dy \<and> y + dy < H - 1 \<and> 1 \<le> x + dx \<and> x + dx < W - 1
      \<and> c + nshift W d = (y + dy) * W + (x + dx)"
    using yx d(1-4) d(5)[of y x] by simp
  then show ?thesis unfolding in_frame by blast
qed

lemma neighbour_of_frame:
  assumes "c \<in> set (frame W H)" "0 \<le> d" "d \<le> 7"
  shows "c + nshift W d \<in> set (all_cells W H)"
proof -
  from assms(1) obtain y x where yx: "1 \<le> y" "y < H - 1" "1 \<le> x" "x < W - 1" "c = y * W + x"
    by (auto simp: in_frame)
  from nshift_coords[OF assms(2,3), of W] obtain dy dx where
    d: "- 1 \<le> dy" "dy \<le> 1" "- 1 \<le> dx" "dx \<le> 1"
    "\<And>y x. y * W + x + nshift W d = (y + dy) * W + (x + dx)" by metis
  have "0 \<le> y + dy \<and> y + dy < H \<and> 0 \<le> x + dx \<and> x + dx < W
      \<and> c + nshift W d = (y + dy) * W + (x + dx)"
    using yx d(1-4) d(5)[of y x] by simp
  then show ?thesis unfolding in_all_cells by blast
qed

lemma nshift_inj:
  assumes "3 \<le> W" "0 \<le> d" "d \<le> 7" "0 \<le> e" "e \<le> 7" "nshift W d = nshift W e"
  shows "d = e"
proof -
  have "d \<in> {0, 1, 2, 3, 4, 5, 6, 7}" "e \<in> {0, 1, 2, 3, 4, 5, 6, 7}"
    using assms by (auto intro: dir_cases)
  then show ?thesis using assms(1,6) by (auto simp: nshift_simps)
qed

lemma nshift_nonzero: "3 \<le> W \<Longrightarrow> 0 \<le> d \<Longrightarrow> d \<le> 7 \<Longrightarrow> nshift W d \<noteq> 0"
  by (auto dest!: dir_cases simp: nshift_simps)


lemma opposite_range: "0 \<le> d \<Longrightarrow> d \<le> 7 \<Longrightarrow> 0 \<le> opposite d \<and> opposite d \<le> 7"
  by (simp add: opposite_def)

lemma nshift_opposite: "0 \<le> d \<Longrightarrow> d \<le> 7 \<Longrightarrow> nshift W (opposite d) = - nshift W d"
  by (auto dest!: dir_cases simp: nshift_simps opposite_def)

lemma all_cells_bounds:
  assumes "c \<in> set (all_cells W H)"
  shows "0 \<le> c \<and> c < W * H"
proof -
  from assms obtain y x where yx: "0 \<le> y" "y < H" "0 \<le> x" "x < W" "c = y * W + x"
    by (auto simp: in_all_cells)
  have "0 \<le> y * W" using yx by simp
  moreover have "(y + 1) * W \<le> H * W" using yx by (intro mult_right_mono) auto
  ultimately show ?thesis using yx by (simp add: algebra_simps)
qed

subsection \<open>Invariants of the stages\<close>

lemma interior_all_cells: "c \<in> set (interior W H) \<Longrightarrow> c \<in> set (all_cells W H)"
  by (simp add: interior_frame frame_all_cells)

lemma grid_inv_first:
  assumes "\<forall>c. 0 \<le> draw c \<and> draw c \<le> 1"
  shows "grid_inv W H (run_init W H (constructor W H draw s0))"
proof -
  let ?s = "run_init W H (constructor W H draw s0)"
  have r: "rec ?s c = NO_FLOW" and n: "ndon ?s c = 0" if "c \<in> set (all_cells W H)" for c
    using all_cells_bounds[OF that] by (simp_all add: run_init_eq)
  have hh: "h ?s = GenerateRandomTerrain W H draw (h s0)"
    by (simp add: run_init_eq constructor_def)
  have t: "h ?s (y * W + x) = terrain_cell W H draw y x" if "0 \<le> y" "y < H" "0 \<le> x" "x < W" for y x
    using that by (simp add: hh GenerateRandomTerrain_cell)
  have h0: "0 \<le> h ?s c" if "c \<in> set (all_cells W H)" for c
  proof -
    from that obtain y x where yx: "0 \<le> y" "y < H" "0 \<le> x" "x < W" "c = y * W + x"
      by (auto simp: in_all_cells)
    show ?thesis using assms t[OF yx(1-4)] by (simp add: yx(5) terrain_cell_def Let_def)
  qed
  have hz: "h ?s c = 0" if "c \<in> set (all_cells W H)" "c \<notin> set (interior W H)" for c
  proof -
    from that obtain y x where yx: "0 \<le> y" "y < H" "0 \<le> x" "x < W" "c = y * W + x"
      by (auto simp: in_all_cells)
    with that(2) have "\<not> (2 \<le> y \<and> y < H - 2 \<and> 2 \<le> x \<and> x < W - 2)"
      by (auto simp: in_interior)
    then have "terrain_cell W H draw y x = 0" using yx by (auto simp: terrain_cell_def Let_def)
    then show ?thesis using t[OF yx(1-4)] by (simp add: yx(5))
  qed
  show ?thesis
    unfolding grid_inv_def using r n h0 hz by (auto dest: interior_all_cells)
qed

lemma inv_Receivers:
  assumes "grid_inv W H s"
  shows "grid_inv W H (ComputeReceivers W H s)" and "descends W H (ComputeReceivers W H s)"
proof -
  let ?s = "ComputeReceivers W H s"
  have r: "rec ?s c = (if c \<in> set (interior W H) then steepest W (h s) c else rec s c)" for c
    by (simp add: ComputeReceivers_eq)
  have st: "steepest W (h s) c = NO_FLOW \<or> (0 \<le> steepest W (h s) c \<and> steepest W (h s) c \<le> 7)" for c
    using steepest_props[of W "h s" c] by auto
  show "grid_inv W H ?s"
    using assms st unfolding grid_inv_def by (simp add: r)
  show "descends W H ?s"
    unfolding descends_def receiver_def using steepest_descends[of W "h s"] by (simp add: r)
qed

lemma inv_Donors:
  assumes "grid_inv W H s"
  shows "grid_inv W H (ComputeDonors W H s)" and "donors_ok W H (ComputeDonors W H s)"
    and "descends W H s \<Longrightarrow> descends W H (ComputeDonors W H s)"
proof -
  show "grid_inv W H (ComputeDonors W H s)"
    using assms unfolding grid_inv_def by (simp add: ndon_ComputeDonors)
  show "donors_ok W H (ComputeDonors W H s)"
    unfolding donors_ok_def by (simp add: donor_slots_ComputeDonors ndon_ComputeDonors)
  show "descends W H s \<Longrightarrow> descends W H (ComputeDonors W H s)"
    unfolding descends_def receiver_def by simp
qed

lemma donor_slots_cong:
  "donor s' = donor s \<Longrightarrow> ndon s' = ndon s \<Longrightarrow> donor_slots s' = donor_slots s"
  by (simp add: donor_slots_def fun_eq_iff)

lemma donors_ok_cong:
  assumes "donor s' = donor s" "ndon s' = ndon s" "rec s' = rec s" "donors_ok W H s"
  shows "donors_ok W H s'"
  using assms(4) unfolding donors_ok_def donor_slots_cong[OF assms(1,2)] assms(2,3) .

lemma inv_order_only:
  assumes "order_only s s'"
  shows "grid_inv W H s \<Longrightarrow> grid_inv W H s'" and "descends W H s \<Longrightarrow> descends W H s'"
    and "donors_ok W H s \<Longrightarrow> donors_ok W H s'"
proof -
  show "grid_inv W H s \<Longrightarrow> grid_inv W H s'" and "descends W H s \<Longrightarrow> descends W H s'"
    using assms unfolding grid_inv_def descends_def receiver_def order_only_def by simp_all
  show "donors_ok W H s \<Longrightarrow> donors_ok W H s'"
    using assms by (rule_tac donors_ok_cong[of s' s]) (simp_all add: order_only_def)
qed

lemma inv_FlowAcc:
  shows "grid_inv W H s \<Longrightarrow> grid_inv W H (ComputeFlowAcc W H s)"
    and "descends W H s \<Longrightarrow> descends W H (ComputeFlowAcc W H s)"
    and "donors_ok W H s \<Longrightarrow> donors_ok W H (ComputeFlowAcc W H s)"
proof -
  show "grid_inv W H s \<Longrightarrow> grid_inv W H (ComputeFlowAcc W H s)"
    and "descends W H s \<Longrightarrow> descends W H (ComputeFlowAcc W H s)"
    unfolding grid_inv_def descends_def receiver_def by simp_all
  show "donors_ok W H s \<Longrightarrow> donors_ok W H (ComputeFlowAcc W H s)"
    by (rule donors_ok_cong[of _ s]) simp_all
qed

lemma ueq_dt_pos: "0 < ueq * dt"
  by (simp add: ueq_def dt_def)

lemma inv_Uplift:
  assumes g: "grid_inv W H s"
  shows "grid_inv W H (AddUplift W H s)"
    and "descends W H s \<Longrightarrow> descends_weak W H (AddUplift W H s)"
    and "donors_ok W H s \<Longrightarrow> donors_ok W H (AddUplift W H s)"
proof -
  let ?s = "AddUplift W H s"
  have hh: "h ?s c = (if c \<in> set (interior W H) then h s c + ueq * dt else h s c)" for c
    by (simp add: AddUplift_eq)
  show "grid_inv W H ?s"
    using g ueq_dt_pos unfolding grid_inv_def by (auto simp: hh intro: add_nonneg_nonneg less_imp_le)
  show "donors_ok W H s \<Longrightarrow> donors_ok W H ?s"
    by (rule donors_ok_cong[of _ s]) simp_all
  show "descends_weak W H ?s" if d: "descends W H s"
    unfolding descends_weak_def
  proof (intro ballI impI)
    fix c assume c: "c \<in> set (interior W H)" and r: "rec ?s c \<noteq> NO_FLOW"
    then have lt: "h s (receiver W s c) < h s c" using d by (simp add: descends_def)
    have "receiver W ?s c = receiver W s c" by (simp add: receiver_def)
    then show "h ?s (receiver W ?s c) \<le> h ?s c"
      using lt c ueq_dt_pos by (simp add: hh)
  qed
qed

lemma factr_nonneg: "0 \<le> keq * dt * cpow a meq / cpow len neq"
proof -
  have "meq \<noteq> of_int \<lfloor>meq\<rfloor>" by (simp add: meq_def)
  then have "0 \<le> cpow a meq" by (simp add: cpow_def)
  moreover have "0 \<le> cpow len neq" by (simp add: cpow_neq)
  ultimately show ?thesis by (simp add: keq_def dt_def)
qed

lemma interior_wide: "c \<in> set (interior W H) \<Longrightarrow> 5 \<le> W \<and> 5 \<le> H"
  by (auto simp: in_interior)

lemma erode_cell_inv:
  assumes e: "erode_cell W si s = Some s'" and g: "grid_inv W H s" and d: "descends_weak W H s"
  shows "grid_inv W H s' \<and> descends_weak W H s' \<and> (\<forall>c \<in> set (all_cells W H). h s' c \<le> h s c)"
proof (cases "rec s (stack s si) = NO_FLOW")
  case True
  then have "s' = s" using e by (simp add: erode_cell_def)
  then show ?thesis using g d by simp
next
  case False
  let ?c = "stack s si"
  let ?n = "?c + nshift W (rec s ?c)"
  from False e obtain hnew where
    nw: "newton (keq * dt * cpow (accum s ?c) meq / cpow (dr (rec s ?c)) neq) (h s ?c) (h s ?n)
           (h s ?c) (h s ?c) (2 * tol) = Some hnew"
    and s': "s' = s\<lparr>h := (h s)(?c := hnew)\<rparr>"
    by (auto simp: erode_cell_def Let_def split: option.splits)
  have rs: "rec s' = rec s" "ndon s' = ndon s" by (simp_all add: s')
  have rv: "receiver W s' = receiver W s" by (simp add: receiver_def fun_eq_iff s')
  show ?thesis
  proof (cases "?c \<in> set (all_cells W H)")
    case False
    then have same: "h s' x = h s x" if "x \<in> set (all_cells W H)" for x
      using that by (auto simp: s')
    have g': "grid_inv W H s'"
      using g unfolding grid_inv_def rs by (simp add: same interior_all_cells)
    have "grid_inv W H s' \<and> descends_weak W H s'"
    proof
      show "grid_inv W H s'" by (rule g')
      show "descends_weak W H s'"
        unfolding descends_weak_def rv rs
      proof (intro ballI impI)
        fix x assume x: "x \<in> set (interior W H)" and r: "rec s x \<noteq> NO_FLOW"
        then have dir: "0 \<le> rec s x \<and> rec s x \<le> 7" using g by (auto simp: grid_inv_def)
        then have "receiver W s x \<in> set (all_cells W H)"
          using neighbour_of_interior[OF x, of "rec s x"] by (simp add: receiver_def frame_all_cells)
        then show "h s' (receiver W s x) \<le> h s' x"
          using d x r by (simp add: same interior_all_cells descends_weak_def)
      qed
    qed
    then show ?thesis using same by simp
  next
    case True
    then have ci: "?c \<in> set (interior W H)" using g False by (auto simp: grid_inv_def)
    then have dir: "0 \<le> rec s ?c" "rec s ?c \<le> 7" using g False by (auto simp: grid_inv_def)
    have W: "3 \<le> W" using interior_wide[OF ci] by simp
    have nf: "?n \<in> set (frame W H)" using neighbour_of_interior[OF ci dir] .
    have ne: "?n \<noteq> ?c" using nshift_nonzero[OF W dir] by simp
    have le: "h s ?n \<le> h s ?c" using d ci False by (simp add: descends_weak_def receiver_def)
    have hn0: "0 \<le> h s ?n" using g nf by (simp add: grid_inv_def frame_all_cells)
    from newton_converges[OF factr_nonneg le, of "accum s ?c" "dr (rec s ?c)"] nw
    have b: "h s ?n \<le> hnew" "hnew \<le> h s ?c" by auto
    have hs': "h s' x = (if x = ?c then hnew else h s x)" for x by (simp add: s')
    have g': "grid_inv W H s'"
      using g ci b hn0 unfolding grid_inv_def rs by (auto simp: hs')
    have d': "descends_weak W H s'"
      unfolding descends_weak_def rv rs
    proof (intro ballI impI)
      fix x assume x: "x \<in> set (interior W H)" and r: "rec s x \<noteq> NO_FLOW"
      have dx: "h s (receiver W s x) \<le> h s x" using d x r by (simp add: descends_weak_def)
      show "h s' (receiver W s x) \<le> h s' x"
      proof (cases "x = ?c")
        case True
        then show ?thesis using b ne by (simp add: hs' receiver_def)
      next
        case False
        then show ?thesis using dx b by (auto simp: hs')
      qed
    qed
    show ?thesis using g' d' b by (auto simp: hs')
  qed
qed


lemma erode_cell_erode_inv:
  "erode_cell W si t = Some t' \<Longrightarrow> erode_inv W H s t \<Longrightarrow> erode_inv W H s t'"
  using erode_cell_inv[of W si t t' H] unfolding erode_inv_def by force

lemma erode_level_erode_inv:
  assumes "erode_level W li t = Some t'" "erode_inv W H s t"
  shows "erode_inv W H s t'"
  using assms(1)[unfolded erode_level_def] assms(2)
  by (rule fold_opt_inv[where P="erode_inv W H s", rotated]) (rule erode_cell_erode_inv)

lemma Erode_erode_inv:
  assumes "Erode W s = Some s'" "grid_inv W H s" "descends_weak W H s"
  shows "erode_inv W H s s'"
proof -
  have "erode_inv W H s s" using assms(2,3) by (simp add: erode_inv_def)
  with assms(1)[unfolded Erode_def] show ?thesis
    by (rule fold_opt_inv[where P="erode_inv W H s", rotated]) (rule erode_level_erode_inv)
qed

lemma at_stage_inv:
  assumes "at_stage W H b s"
  shows "grid_inv W H s
       \<and> (b \<in> {Received, Donated, Ordered, Accumulated} \<longrightarrow> descends W H s \<and> steepest_ok W H s)
       \<and> (b \<in> {Donated, Ordered, Accumulated, Uplifted} \<longrightarrow> donors_ok W H s)
       \<and> (b = Uplifted \<longrightarrow> descends_weak W H s)"
  using assms
proof (induction rule: at_stage.induct)
  case (at_first draw s0)
  then show ?case by (simp add: grid_inv_first)
next
  case (at_Received s)
  have "steepest_ok W H (ComputeReceivers W H s)"
    by (simp add: steepest_ok_def ComputeReceivers_eq)
  then show ?case using at_Received.IH by (simp add: inv_Receivers)
next
  case (at_Donated s)
  then show ?case by (simp add: inv_Donors steepest_ok_def)
next
  case (at_Ordered s s')
  from at_Ordered.hyps(2) have o: "order_only s s'" by (rule GenerateOrder_only)
  have "steepest_ok W H s'" using at_Ordered.IH o by (simp add: steepest_ok_def order_only_def)
  then show ?case using at_Ordered.IH inv_order_only[OF o] by simp
next
  case (at_Accumulated s)
  then show ?case by (simp add: inv_FlowAcc steepest_ok_def)
next
  case (at_Uplifted s)
  then show ?case by (simp add: inv_Uplift)
next
  case (at_next s s')
  then show ?case using Erode_erode_inv[of W s s' H] by (simp add: erode_inv_def)
qed

subsection \<open>A concrete 5 x 5 run\<close>

lemma h_start5:
  assumes "0 \<le> y" "y < 5" "0 \<le> x" "x < 5"
  shows "h start5 (y * 5 + x) = (if y = 2 \<and> x = 2 then 1 / 2 else 0)"
proof -
  have "h start5 (y * 5 + x) = terrain_cell 5 5 (\<lambda>_. 1 / 2) y x"
    using assms by (simp add: start5_def run_init_eq constructor_def GenerateRandomTerrain_cell)
  then show ?thesis using assms by (auto simp: terrain_cell_def Let_def)
qed

lemma h_start5_vals:
  "h start5 12 = 1 / 2" "h start5 11 = 0" "h start5 6 = 0" "h start5 7 = 0" "h start5 8 = 0"
  "h start5 13 = 0" "h start5 18 = 0" "h start5 17 = 0" "h start5 16 = 0"
  using h_start5[of 2 2] h_start5[of 2 1] h_start5[of 1 1] h_start5[of 1 2] h_start5[of 1 3]
    h_start5[of 2 3] h_start5[of 3 3] h_start5[of 3 2] h_start5[of 3 1]
  by simp_all

lemma in_interior5: "12 \<in> set (interior 5 5)"
  by (simp add: interior_def cells_def upto_rec1)

lemma rec_start5: "rec (ComputeReceivers 5 5 start5) 12 = 0"
  by (simp add: ComputeReceivers_eq in_interior5 steepest_def upto_0_7 rec_step_def slope_def
      nshift_simps dr_simps h_start5_vals SQRT2_def NO_FLOW_def)

lemma in_grid5: "12 \<in> set (all_cells 5 5)"
  using in_interior5 by (rule interior_all_cells)

lemma at_start5: "at_stage 5 5 Start start5"
  unfolding start5_def by (rule at_first) simp

subsection \<open>The receiver graph\<close>

lemma receiver_of_flowing:
  assumes g: "grid_inv W H s" and c: "c \<in> set (all_cells W H)" and r: "rec s c \<noteq> NO_FLOW"
  shows "c \<in> set (interior W H)" and "0 \<le> rec s c" and "rec s c \<le> 7"
    and "receiver W s c \<in> set (frame W H)"
proof -
  show i: "c \<in> set (interior W H)" using g c r by (auto simp: grid_inv_def)
  then show d: "0 \<le> rec s c" "rec s c \<le> 7" using g r by (auto simp: grid_inv_def)
  show "receiver W s c \<in> set (frame W H)"
    unfolding receiver_def using i d by (rule neighbour_of_interior)
qed

lemma flow_path_lower:
  assumes g: "grid_inv W H s" and d: "descends W H s"
  shows "c \<in> set (all_cells W H) \<Longrightarrow> flow_path W s k c = Some r \<Longrightarrow>
         r \<in> set (all_cells W H) \<and> (if k = 0 then r = c else h s r < h s c)"
proof (induction k arbitrary: c)
  case 0
  then show ?case by simp
next
  case (Suc k)
  from Suc.prems have nf: "rec s c \<noteq> NO_FLOW" and p: "flow_path W s k (receiver W s c) = Some r"
    by (auto split: if_splits)
  note rf = receiver_of_flowing[OF g Suc.prems(1) nf]
  have lt: "h s (receiver W s c) < h s c" using d rf(1) nf by (simp add: descends_def)
  from Suc.IH[OF frame_all_cells[OF rf(4)] p] lt show ?case
    by (auto split: if_splits)
qed

lemma reaches_sink:
  assumes g: "grid_inv W H s" and d: "descends W H s"
  shows "c \<in> set (all_cells W H) \<Longrightarrow> \<exists>k r. flow_path W s k c = Some r \<and> rec s r = NO_FLOW"
proof (induction "card {x \<in> set (all_cells W H). h s x < h s c}" arbitrary: c rule: less_induct)
  case less
  show ?case
  proof (cases "rec s c = NO_FLOW")
    case True
    then have "flow_path W s 0 c = Some c \<and> rec s c = NO_FLOW" by simp
    then show ?thesis by blast
  next
    case False
    let ?n = "receiver W s c"
    note rf = receiver_of_flowing[OF g less.prems False]
    have ng: "?n \<in> set (all_cells W H)" using rf(4) by (rule frame_all_cells)
    have lt: "h s ?n < h s c" using d rf(1) False by (simp add: descends_def)
    have "{x \<in> set (all_cells W H). h s x < h s ?n} \<subset> {x \<in> set (all_cells W H). h s x < h s c}"
      using lt ng by auto
    then have "card {x \<in> set (all_cells W H). h s x < h s ?n}
        < card {x \<in> set (all_cells W H). h s x < h s c}"
      by (intro psubset_card_mono) auto
    from less.hyps[OF this ng] obtain k r where "flow_path W s k ?n = Some r" "rec s r = NO_FLOW"
      by blast
    then have "flow_path W s (Suc k) c = Some r \<and> rec s r = NO_FLOW" using False by simp
    then show ?thesis by blast
  qed
qed

text \<open>
  C3.  After the Receivers stage of any pass, every cell with a receiver entry other than
  \<open>NO_FLOW\<close> has its receiver inside the grid and strictly lower, in the elevations the
  pass started with; following receiver links one never comes back to the cell one
  started from, and from every cell the links end in a cell marked \<open>NO_FLOW\<close>.
\<close>

theorem receivers_strictly_lower:
  assumes "at_stage W H Start s0" and "s = ComputeReceivers W H s0"
  shows "(\<forall>c \<in> set (all_cells W H). rec s c \<noteq> NO_FLOW \<longrightarrow>
            receiver W s c \<in> set (all_cells W H) \<and> h s0 (receiver W s c) < h s0 c)
       \<and> (\<forall>c \<in> set (all_cells W H). \<forall>k. 0 < k \<longrightarrow> flow_path W s k c \<noteq> Some c)
       \<and> (\<forall>c \<in> set (all_cells W H). \<exists>k r. flow_path W s k c = Some r \<and> rec s r = NO_FLOW)"
proof -
  have "at_stage W H Received s" using assms by (auto intro: at_stage.intros)
  then have g: "grid_inv W H s" and d: "descends W H s" using at_stage_inv by auto
  have hh: "h s = h s0" by (simp add: assms(2))
  have 1: "receiver W s c \<in> set (all_cells W H) \<and> h s0 (receiver W s c) < h s0 c"
    if "c \<in> set (all_cells W H)" "rec s c \<noteq> NO_FLOW" for c
    using receiver_of_flowing[OF g that] d that(2) hh
    by (auto simp: descends_def frame_all_cells)
  have 2: "flow_path W s k c \<noteq> Some c" if "c \<in> set (all_cells W H)" "0 < k" for c k
    using flow_path_lower[OF g d that(1), of k c] that(2) by auto
  show ?thesis using 1 2 reaches_sink[OF g d] by blast
qed

theorem receivers_strictly_lower_witness:
  "at_stage 5 5 Start start5
   \<and> 12 \<in> set (all_cells 5 5) \<and> rec (ComputeReceivers 5 5 start5) 12 \<noteq> NO_FLOW
   \<and> h start5 (receiver 5 (ComputeReceivers 5 5 start5) 12) < h start5 12
   \<and> flow_path 5 (ComputeReceivers 5 5 start5) 1 12 \<noteq> Some 12"
proof -
  have r: "rec (ComputeReceivers 5 5 start5) 12 \<noteq> NO_FLOW"
    by (simp add: rec_start5 NO_FLOW_def)
  show ?thesis
    using receivers_strictly_lower[OF at_start5 refl] at_start5 in_grid5 r by fastforce
qed

subsection \<open>Donors and receivers\<close>

lemma set_pointing:
  "set (pointing_neighbours W r c) =
     {n. (\<exists>d. 0 \<le> d \<and> d \<le> 7 \<and> n = c + nshift W d) \<and> r n \<noteq> NO_FLOW \<and> n + nshift W (r n) = c}"
  by (auto simp: pointing_neighbours_def)

lemma distinct_pointing:
  assumes "3 \<le> W"
  shows "distinct (pointing_neighbours W r c)"
proof -
  have "inj_on (\<lambda>ni. c + nshift W ni) (set [0..7])"
    using nshift_inj[OF assms] by (auto simp: inj_on_def)
  then have "distinct (map (\<lambda>ni. c + nshift W ni) [0..7])"
    by (simp add: distinct_map)
  then show ?thesis unfolding pointing_neighbours_def by (rule distinct_filter)
qed

lemma pointing_iff:
  assumes g: "grid_inv W H s" and c: "c \<in> set (frame W H)" and n: "n \<in> set (all_cells W H)"
  shows "n \<in> set (pointing_neighbours W (rec s) c) \<longleftrightarrow> rec s n \<noteq> NO_FLOW \<and> receiver W s n = c"
proof
  assume "n \<in> set (pointing_neighbours W (rec s) c)"
  then show "rec s n \<noteq> NO_FLOW \<and> receiver W s n = c"
    by (simp add: set_pointing receiver_def)
next
  assume a: "rec s n \<noteq> NO_FLOW \<and> receiver W s n = c"
  note rf = receiver_of_flowing[OF g n conjunct1[OF a]]
  have o: "0 \<le> opposite (rec s n) \<and> opposite (rec s n) \<le> 7"
    using rf(2,3) by (rule opposite_range)
  have "n = c + nshift W (opposite (rec s n))"
    using a nshift_opposite[OF rf(2,3), of W] by (simp add: receiver_def)
  then show "n \<in> set (pointing_neighbours W (rec s) c)"
    using a o unfolding set_pointing receiver_def by blast
qed

text \<open>
  C5.  After the Donors stage of any pass, the donor slots \<open>donor[8c..8c+ndon[c])\<close> of every
  frame cell \<open>c\<close> list, in direction order and without repetition, exactly the neighbours
  \<open>n\<close> with \<open>rec[n] \<noteq> NO_FLOW\<close> and \<open>n+nshift[rec[n]] = c\<close>; and for every cell \<open>c\<close> and
  direction \<open>d\<close> whose neighbour \<open>c+nshift[d]\<close> is a cell, \<open>rec[c] = d\<close> holds exactly when
  \<open>c\<close> occurs among the donor slots of that neighbour.
\<close>

theorem donors_mirror_receivers:
  assumes "at_stage W H Donated s"
  shows "(\<forall>c \<in> set (frame W H).
            donor_slots s c = pointing_neighbours W (rec s) c
            \<and> ndon s c = int (length (donor_slots s c)) \<and> distinct (donor_slots s c))
       \<and> (\<forall>c \<in> set (all_cells W H). \<forall>d. 0 \<le> d \<and> d \<le> 7 \<and> c + nshift W d \<in> set (all_cells W H) \<longrightarrow>
            (rec s c = d \<longleftrightarrow> c \<in> set (donor_slots s (c + nshift W d))))"
proof -
  from at_stage_inv[OF assms] have g: "grid_inv W H s" and dk: "donors_ok W H s" by auto
  have 1: "donor_slots s c = pointing_neighbours W (rec s) c
            \<and> ndon s c = int (length (donor_slots s c)) \<and> distinct (donor_slots s c)"
    if "c \<in> set (frame W H)" for c
    using dk that frame_in_grid[OF that] distinct_pointing[of W "rec s" c]
    by (simp add: donors_ok_def)
  have 2: "rec s c = d \<longleftrightarrow> c \<in> set (donor_slots s (c + nshift W d))"
    if c: "c \<in> set (all_cells W H)" and d: "0 \<le> d" "d \<le> 7"
      and n: "c + nshift W d \<in> set (all_cells W H)" for c d
  proof
    assume r: "rec s c = d"
    then have nf: "rec s c \<noteq> NO_FLOW" using d by (auto simp: NO_FLOW_def)
    note rf = receiver_of_flowing[OF g c nf]
    have f: "c + nshift W d \<in> set (frame W H)" using rf(4) r by (simp add: receiver_def)
    show "c \<in> set (donor_slots s (c + nshift W d))"
      using 1[OF f] pointing_iff[OF g f c] nf r by (simp add: receiver_def)
  next
    assume a: "c \<in> set (donor_slots s (c + nshift W d))"
    have f: "c + nshift W d \<in> set (frame W H)"
    proof (rule ccontr)
      assume "c + nshift W d \<notin> set (frame W H)"
      then have "ndon s (c + nshift W d) = 0" using g n by (simp add: grid_inv_def)
      then show False using a by (simp add: donor_slots_def)
    qed
    then have W: "3 \<le> W" using frame_in_grid by blast
    from a 1[OF f] pointing_iff[OF g f c]
    have nf: "rec s c \<noteq> NO_FLOW" and e: "c + nshift W (rec s c) = c + nshift W d"
      by (simp_all add: receiver_def)
    note rf = receiver_of_flowing[OF g c nf]
    show "rec s c = d" using nshift_inj[OF W rf(2,3) d] e by simp
  qed
  show ?thesis using 1 2 by blast
qed


lemma at_donated5: "at_stage 5 5 Donated donated5"
  unfolding donated5_def by (intro at_Donated at_Received at_start5)

lemma in_frame5: "11 \<in> set (frame 5 5)"
  by (simp add: frame_def cells_def upto_rec1)

theorem donors_mirror_receivers_witness:
  "at_stage 5 5 Donated donated5 \<and> 11 \<in> set (frame 5 5) \<and> 12 \<in> set (all_cells 5 5)
   \<and> 12 + nshift 5 0 \<in> set (all_cells 5 5)
   \<and> rec donated5 12 = 0 \<and> 12 \<in> set (donor_slots donated5 (12 + nshift 5 0))
   \<and> donor_slots donated5 11 = pointing_neighbours 5 (rec donated5) 11"
proof -
  have r: "rec donated5 12 = 0" by (simp add: donated5_def rec_start5)
  have n: "12 + nshift 5 0 \<in> set (all_cells 5 5)"
    using frame_all_cells[OF in_frame5] by (simp add: nshift_simps)
  show ?thesis
    using donors_mirror_receivers[OF at_donated5] at_donated5 in_frame5 in_grid5 r n
    by auto
qed

subsection \<open>Arrays and lists\<close>

lemma put_below: "i < n \<Longrightarrow> put f n xs i = f i"
  by (induction xs arbitrary: f n) auto

lemma put_above: "n + int (length xs) \<le> i \<Longrightarrow> put f n xs i = f i"
  by (induction xs arbitrary: f n) auto

lemma put_at: "k < length xs \<Longrightarrow> put f n xs (n + int k) = xs ! k"
proof (induction xs arbitrary: f n k)
  case Nil
  then show ?case by simp
next
  case (Cons x xs)
  show ?case
  proof (cases k)
    case 0
    then show ?thesis by (simp add: put_below)
  next
    case (Suc j)
    then have "put (f(n := x)) (n + 1) xs (n + 1 + int j) = xs ! j"
      using Cons.prems by (intro Cons.IH) simp
    then show ?thesis by (simp add: Suc add.assoc)
  qed
qed

lemma put_append: "put f n (xs @ ys) = put (put f n xs) (n + int (length xs)) ys"
  by (induction xs arbitrary: f n) (auto simp: add.assoc)

lemma length_seg [simp]: "length (seg f a k) = k"
  by (simp add: seg_def)

lemma seg_nth [simp]: "i < k \<Longrightarrow> seg f a k ! i = f (a + int i)"
  by (simp add: seg_def)

lemma seg_put: "seg (put f n xs) n (length xs) = xs"
  by (rule nth_equalityI) (simp_all add: put_at)

lemma seg_cong: "(\<And>i. a \<le> i \<Longrightarrow> i < a + int k \<Longrightarrow> f i = g i) \<Longrightarrow> seg f a k = seg g a k"
  by (simp add: seg_def)

lemma seg_put_below: "a + int k \<le> n \<Longrightarrow> seg (put f n xs) a k = seg f a k"
  by (rule seg_cong) (simp add: put_below)

lemma seg_add: "seg f a (j + k) = seg f a j @ seg f (a + int j) k"
  by (rule nth_equalityI) (auto simp: nth_append add.assoc)

lemma seg_upto: "map f [a..a + int k - 1] = seg f a k"
proof (induction k)
  case 0
  then show ?case by (simp add: seg_def)
next
  case (Suc k)
  have "[a..a + int (Suc k) - 1] = [a..a + int k - 1] @ [a + int k]"
    using upto_rec2[of a "a + int k"] by simp
  then show ?case using Suc by (simp add: seg_def)
qed

lemma seg_upto': "a \<le> b + 1 \<Longrightarrow> map f [a..b] = seg f a (nat (b + 1 - a))"
  using seg_upto[of f a "nat (b + 1 - a)"] by simp

subsection \<open>The pushes of GenerateOrder\<close>

lemma fold_push_donor:
  assumes "ks = [] \<or> n + int (length ks) \<le> sw"
  shows "fold_err (push_donor sw c) ks (s, n) =
           Inr (s\<lparr>stack := put (stack s) n (map (\<lambda>k. donor s (8 * c + k)) ks)\<rparr>,
                n + int (length ks))"
  using assms
proof (induction ks arbitrary: s n)
  case Nil
  then show ?case by simp
next
  case (Cons k ks)
  let ?s1 = "s\<lparr>stack := (stack s)(n := donor s (8 * c + k))\<rparr>"
  have 1: "push_donor sw c k (s, n) = Inr (?s1, n + 1)"
    using Cons.prems by (simp add: push_donor_def Let_def)
  have "ks = [] \<or> n + 1 + int (length ks) \<le> sw" using Cons.prems by auto
  from Cons.IH[OF this, of ?s1] show ?case by (simp add: 1 add.assoc fun_upd_def)
qed

lemma push_donors_eq:
  assumes "donor_slots s (stack s si) = [] \<or> n + int (length (donor_slots s (stack s si))) \<le> sw"
  shows "push_donors sw si (s, n) =
           Inr (s\<lparr>stack := put (stack s) n (donor_slots s (stack s si))\<rparr>,
                n + int (length (donor_slots s (stack s si))))"
proof -
  let ?ks = "[0..ndon s (stack s si) - 1]"
  have d: "donor_slots s (stack s si) = map (\<lambda>k. donor s (8 * stack s si + k)) ?ks"
    by (simp add: donor_slots_def)
  have "?ks = [] \<or> n + int (length ?ks) \<le> sw"
    using assms unfolding d by simp
  from fold_push_donor[OF this, of "stack s si" s] show ?thesis
    unfolding push_donors_def Let_def prod.case d by simp
qed

lemma fold_push_donors:
  assumes "\<forall>si \<in> set sis. si < n"
    and "concat (map (\<lambda>si. donor_slots s (stack s si)) sis) = []
         \<or> n + int (length (concat (map (\<lambda>si. donor_slots s (stack s si)) sis))) \<le> sw"
  shows "fold_err (push_donors sw) sis (s, n) =
           Inr (s\<lparr>stack := put (stack s) n (concat (map (\<lambda>si. donor_slots s (stack s si)) sis))\<rparr>,
                n + int (length (concat (map (\<lambda>si. donor_slots s (stack s si)) sis))))"
  using assms
proof (induction sis arbitrary: s n)
  case Nil
  then show ?case by simp
next
  case (Cons si sis)
  let ?d = "donor_slots s (stack s si)"
  let ?rest = "concat (map (\<lambda>si. donor_slots s (stack s si)) sis)"
  let ?s1 = "s\<lparr>stack := put (stack s) n ?d\<rparr>"
  let ?n1 = "n + int (length ?d)"
  have c1: "?d = [] \<or> n + int (length ?d) \<le> sw" using Cons.prems(2) by auto
  have 1: "push_donors sw si (s, n) = Inr (?s1, ?n1)" using c1 by (rule push_donors_eq)
  have ds: "donor_slots ?s1 = donor_slots s" by (rule donor_slots_cong) simp_all
  have same: "concat (map (\<lambda>si. donor_slots ?s1 (stack ?s1 si)) sis) = ?rest"
  proof -
    have "map (\<lambda>si. donor_slots ?s1 (stack ?s1 si)) sis = map (\<lambda>si. donor_slots s (stack s si)) sis"
      using Cons.prems(1) by (intro map_cong[OF refl]) (simp add: ds put_below)
    then show ?thesis by (rule arg_cong)
  qed
  have a: "\<forall>si \<in> set sis. si < ?n1" using Cons.prems(1) by auto
  have b: "concat (map (\<lambda>si. donor_slots ?s1 (stack ?s1 si)) sis) = []
      \<or> ?n1 + int (length (concat (map (\<lambda>si. donor_slots ?s1 (stack ?s1 si)) sis))) \<le> sw"
    unfolding same using Cons.prems(2) by auto
  from Cons.IH[OF a b] show ?case
    unfolding same by (simp add: 1 put_append add.assoc)
qed

lemma fold_push_seed:
  assumes "filter (\<lambda>c. rec s c = NO_FLOW) cs = []
         \<or> n + int (length (filter (\<lambda>c. rec s c = NO_FLOW) cs)) < sw"
  shows "fold_err (push_seed sw) cs (s, n) =
           Inr (s\<lparr>stack := put (stack s) n (filter (\<lambda>c. rec s c = NO_FLOW) cs)\<rparr>,
                n + int (length (filter (\<lambda>c. rec s c = NO_FLOW) cs)))"
  using assms
proof (induction cs arbitrary: s n)
  case Nil
  then show ?case by simp
next
  case (Cons c cs)
  show ?case
  proof (cases "rec s c = NO_FLOW")
    case True
    let ?s1 = "s\<lparr>stack := (stack s)(n := c)\<rparr>"
    have 1: "push_seed sw c (s, n) = Inr (?s1, n + 1)"
      using Cons.prems True by (simp add: push_seed_def)
    have "filter (\<lambda>c. rec ?s1 c = NO_FLOW) cs = []
         \<or> n + 1 + int (length (filter (\<lambda>c. rec ?s1 c = NO_FLOW) cs)) < sw"
      using Cons.prems True by auto
    from Cons.IH[OF this] show ?thesis using True by (simp add: 1 add.assoc fun_upd_def)
  next
    case False
    then have 1: "push_seed sw c (s, n) = Inr (s, n)" by (simp add: push_seed_def)
    from Cons.IH[of s n] Cons.prems False show ?thesis by (simp add: 1)
  qed
qed

subsection \<open>The while loop of GenerateOrder\<close>

lemma bfs_upto_Suc: "bfs_upto W H s (Suc j) = bfs_upto W H s j @ bfs_level W H s j"
  by (simp add: bfs_upto_def)

lemma bfs_upto_0 [simp]: "bfs_upto W H s 0 = []"
  by (simp add: bfs_upto_def)

lemma loop_head_step:
  assumes bound: "\<And>j. int (length (bfs_upto W H s0 j)) \<le> sw"
    and lh: "loop_head W H s0 j (b, t, s, n)"
  shows "\<exists>s1 n1. fold_err (push_donors sw) [t..n - 1] (s, n) = Inr (s1, n1)
           \<and> loop_head W H s0 (Suc j) (t, n, fst (new_level (s1, n1)), snd (new_level (s1, n1)))"
proof -
  let ?U = "bfs_upto W H s0"
  let ?L = "bfs_level W H s0"
  from lh have t: "t = int (length (?U j))" and n: "n = int (length (?U (Suc j)))"
    and st: "seg (stack s) 0 (length (?U (Suc j))) = ?U (Suc j)"
    and nl: "nlevel s = int j + 2"
    and lv: "\<forall>i \<le> Suc j. levels s (int i) = int (length (?U i))"
    and oo: "order_only s0 s"
    by (simp_all add: loop_head_def)
  have nt: "n = t + int (length (?L j))" by (simp add: n t bfs_upto_Suc)
  have ds: "donor_slots s = donor_slots s0"
    using oo by (intro donor_slots_cong) (simp_all add: order_only_def)
  have "seg (stack s) 0 (length (?U j) + length (?L j)) = ?U j @ ?L j"
    using st by (simp add: bfs_upto_Suc)
  then have "seg (stack s) 0 (length (?U j)) @ seg (stack s) t (length (?L j)) = ?U j @ ?L j"
    by (simp add: seg_add t)
  then have lev: "seg (stack s) t (length (?L j)) = ?L j" by simp
  have pos: "map (stack s) [t..n - 1] = ?L j"
    using seg_upto[of "stack s" t "length (?L j)"] lev by (simp add: nt)
  have "map (\<lambda>si. donor_slots s (stack s si)) [t..n - 1] = map (donor_slots s0) (map (stack s) [t..n - 1])"
    by (simp add: ds)
  then have next_level: "concat (map (\<lambda>si. donor_slots s (stack s si)) [t..n - 1]) = ?L (Suc j)"
    by (simp add: pos)
  have n2: "n + int (length (?L (Suc j))) = int (length (?U (Suc (Suc j))))"
    by (simp add: n bfs_upto_Suc)
  have a: "\<forall>si \<in> set [t..n - 1]. si < n" by simp
  have b: "concat (map (\<lambda>si. donor_slots s (stack s si)) [t..n - 1]) = []
      \<or> n + int (length (concat (map (\<lambda>si. donor_slots s (stack s si)) [t..n - 1]))) \<le> sw"
    unfolding next_level n2 using bound by simp
  let ?s1 = "s\<lparr>stack := put (stack s) n (?L (Suc j))\<rparr>"
  let ?n1 = "n + int (length (?L (Suc j)))"
  have f: "fold_err (push_donors sw) [t..n - 1] (s, n) = Inr (?s1, ?n1)"
    using fold_push_donors[OF a b] unfolding next_level .
  let ?s2 = "?s1\<lparr>levels := (levels ?s1)(nlevel ?s1 := ?n1), nlevel := nlevel ?s1 + 1\<rparr>"
  have nw: "new_level (?s1, ?n1) = (?s2, ?n1)" by (simp add: new_level_def)
  have st2: "seg (stack ?s2) 0 (length (?U (Suc (Suc j)))) = ?U (Suc (Suc j))"
  proof -
    have "seg (stack ?s2) 0 (length (?U (Suc j)) + length (?L (Suc j)))
        = seg (put (stack s) n (?L (Suc j))) 0 (length (?U (Suc j)))
          @ seg (put (stack s) n (?L (Suc j))) n (length (?L (Suc j)))"
      by (simp add: seg_add n)
    also have "\<dots> = ?U (Suc j) @ ?L (Suc j)"
      using st by (simp add: seg_put seg_put_below n)
    finally show ?thesis by (simp add: bfs_upto_Suc add.assoc)
  qed
  have lv2: "\<forall>i \<le> Suc (Suc j). levels ?s2 (int i) = int (length (?U i))"
  proof (intro allI impI)
    fix i assume "i \<le> Suc (Suc j)"
    then consider "i \<le> Suc j" | "i = Suc (Suc j)" by linarith
    then show "levels ?s2 (int i) = int (length (?U i))"
    proof cases
      case 1
      then show ?thesis using lv nl by simp
    next
      case 2
      then show ?thesis using nl n2 by simp
    qed
  qed
  have oo2: "order_only s0 ?s2" using oo by (simp add: order_only_def)
  have "loop_head W H s0 (Suc j) (t, n, ?s2, ?n1)"
    unfolding loop_head_def prod.case
    using t n n2 st2 nl lv2 oo2 by simp
  then show ?thesis using f nw by simp
qed


lemma order_loop_refines:
  "\<forall>j. int (length (bfs_upto W H s0 j)) \<le> sw \<Longrightarrow> loop_head W H s0 j (b, t, s, n) \<Longrightarrow>
     \<exists>J b' t' s' n'. order_loop sw (b, t, s, n) = Inr (s', n') \<and> j \<le> J \<and> 0 < J
        \<and> loop_head W H s0 J (b', t', s', n')
        \<and> bfs_level W H s0 (J - 1) = []
        \<and> (\<forall>k. j \<le> Suc k \<and> Suc k < J \<longrightarrow> bfs_level W H s0 k \<noteq> [])"
proof (induction sw "(b, t, s, n)" arbitrary: b t s n j rule: order_loop.induct)
  case (1 sw b t s n)
  note lh = "1.prems"(2)
  have bound: "\<And>j. int (length (bfs_upto W H s0 j)) \<le> sw" using "1.prems"(1) by simp
  from lh have bb: "b = (if j = 0 then - 1 else int (length (bfs_upto W H s0 (j - 1))))"
    and tt: "t = int (length (bfs_upto W H s0 j))"
    by (simp_all add: loop_head_def)
  show ?case
  proof (cases "b < t")
    case False
    then have j: "0 < j" using bb tt by (cases "j = 0") auto
    then obtain i where i: "j = Suc i" by (cases j) auto
    have "bfs_level W H s0 (j - 1) = []"
      using False bb tt by (simp add: i bfs_upto_Suc)
    moreover have "order_loop sw (b, t, s, n) = Inr (s, n)" using False by simp
    ultimately show ?thesis using lh j by (intro exI[of _ j]) auto
  next
    case True
    from loop_head_step[OF bound lh] obtain s1 n1 where
      f: "fold_err (push_donors sw) [t..n - 1] (s, n) = Inr (s1, n1)"
      and lh': "loop_head W H s0 (Suc j) (t, n, fst (new_level (s1, n1)), snd (new_level (s1, n1)))"
      by blast
    obtain s2 n2 where nw: "new_level (s1, n1) = (s2, n2)" by (cases "new_level (s1, n1)")
    have lh2: "loop_head W H s0 (Suc j) (t, n, s2, n2)" using lh' by (simp add: nw)
    from "1.hyps"[OF True f nw "1.prems"(1) lh2] obtain J b' t' s' n' where
      r: "order_loop sw (t, n, s2, n2) = Inr (s', n')" "Suc j \<le> J" "0 < J"
        "loop_head W H s0 J (b', t', s', n')" "bfs_level W H s0 (J - 1) = []"
        "\<forall>k. Suc j \<le> Suc k \<and> Suc k < J \<longrightarrow> bfs_level W H s0 k \<noteq> []"
      by blast
    have e: "order_loop sw (b, t, s, n) = Inr (s', n')"
      using True f nw r(1) by simp
    have ne: "bfs_level W H s0 k \<noteq> []" if "j \<le> Suc k" "Suc k < J" for k
    proof (cases "j = Suc k")
      case False
      then show ?thesis using that r(6) by auto
    next
      case jk: True
      have "int (length (bfs_upto W H s0 k)) < int (length (bfs_upto W H s0 (Suc k)))"
        using True bb tt by (simp add: jk)
      then show ?thesis by (auto simp: bfs_upto_Suc)
    qed
    show ?thesis
      using e r(2-5) ne by (intro exI[of _ J] exI[of _ b'] exI[of _ t'] exI[of _ s'] exI[of _ n']) auto
  qed
qed


lemma bfs_level_empty_after:
  "bfs_level W H s K = [] \<Longrightarrow> K \<le> k \<Longrightarrow> bfs_level W H s k = []"
proof (induction k)
  case 0
  then show ?case by simp
next
  case (Suc k)
  then show ?case by (cases "K = Suc k") auto
qed

lemma bfs_upto_after:
  assumes "bfs_level W H s K = []" "K \<le> k"
  shows "bfs_upto W H s k = bfs_upto W H s K"
  using assms(2)
proof (induction k)
  case 0
  then show ?case by simp
next
  case (Suc k)
  show ?case
  proof (cases "K = Suc k")
    case True
    then show ?thesis by simp
  next
    case False
    then have "K \<le> k" using Suc.prems by simp
    then show ?thesis
      using Suc.IH bfs_level_empty_after[OF assms(1), of k] by (simp add: bfs_upto_Suc)
  qed
qed

lemma GenerateOrder_refines:
  assumes bound: "\<forall>j. int (length (bfs_upto W H s j)) < W * H" and big: "2 < W * H"
  shows "\<exists>K s'. GenerateOrder W H s = Inr s'
     \<and> bfs_level W H s K = [] \<and> (\<forall>k < K. bfs_level W H s k \<noteq> [])
     \<and> nlevel s' = int K + 2
     \<and> (\<forall>i \<le> Suc K. levels s' (int i) = int (length (bfs_upto W H s i)))
     \<and> seg (stack s') 0 (length (bfs_upto W H s K)) = bfs_upto W H s K
     \<and> order_only s s'"
proof -
  let ?sw = "stack_width W H"
  let ?s0 = "s\<lparr>levels := (levels s)(0 := 0), nlevel := 1\<rparr>"
  let ?sd = "seeds W H s"
  have u1: "bfs_upto W H s (Suc 0) = ?sd" by (simp add: bfs_upto_Suc)
  have fs: "filter (\<lambda>c. rec ?s0 c = NO_FLOW) (frame W H) = ?sd" by (simp add: seeds_def)
  have "int (length ?sd) < ?sw" using bound[rule_format, of "Suc 0"] by (simp add: u1 stack_width_def)
  then have c: "filter (\<lambda>c. rec ?s0 c = NO_FLOW) (frame W H) = []
         \<or> 0 + int (length (filter (\<lambda>c. rec ?s0 c = NO_FLOW) (frame W H))) < ?sw"
    unfolding fs by simp
  let ?s1 = "?s0\<lparr>stack := put (stack ?s0) 0 ?sd\<rparr>"
  let ?n1 = "int (length ?sd)"
  have f1: "fold_err (push_seed ?sw) (frame W H) (?s0, 0) = Inr (?s1, ?n1)"
    using fold_push_seed[OF c] unfolding fs by simp
  let ?s2 = "?s1\<lparr>levels := (levels ?s1)(nlevel ?s1 := ?n1), nlevel := nlevel ?s1 + 1\<rparr>"
  have nw: "new_level (?s1, ?n1) = (?s2, ?n1)" by (simp add: new_level_def)
  have lv: "\<forall>i \<le> Suc 0. levels ?s2 (int i) = int (length (bfs_upto W H s i))"
  proof (intro allI impI)
    fix i :: nat assume "i \<le> Suc 0"
    then consider "i = 0" | "i = Suc 0" by linarith
    then show "levels ?s2 (int i) = int (length (bfs_upto W H s i))"
      by cases (simp_all add: u1)
  qed
  have lh: "loop_head W H s 0 (- 1, 0, ?s2, ?n1)"
    unfolding loop_head_def prod.case using lv
    by (simp add: u1 seg_put order_only_def)
  have b': "\<forall>j. int (length (bfs_upto W H s j)) \<le> ?sw"
    using bound by (auto simp: stack_width_def intro: less_imp_le)
  from order_loop_refines[OF b' lh] obtain J b' t' s3 n3 where
    r: "order_loop ?sw (- 1, 0, ?s2, ?n1) = Inr (s3, n3)" "0 < J"
      "loop_head W H s J (b', t', s3, n3)" "bfs_level W H s (J - 1) = []"
      "\<forall>k. Suc k < J \<longrightarrow> bfs_level W H s k \<noteq> []"
    by auto
  obtain K where K: "J = Suc K" using r(2) by (cases J) auto
  have e: "bfs_level W H s K = []" using r(4) by (simp add: K)
  have ne: "\<forall>k < K. bfs_level W H s k \<noteq> []" using r(5) by (simp add: K)
  from r(3) have n3: "n3 = int (length (bfs_upto W H s (Suc J)))"
    and st: "seg (stack s3) 0 (length (bfs_upto W H s (Suc J))) = bfs_upto W H s (Suc J)"
    and nl: "nlevel s3 = int J + 2"
    and l3: "\<forall>i \<le> Suc J. levels s3 (int i) = int (length (bfs_upto W H s i))"
    and oo: "order_only s s3"
    by (simp_all add: loop_head_def)
  have up: "bfs_upto W H s (Suc J) = bfs_upto W H s K" "bfs_upto W H s J = bfs_upto W H s K"
    using bfs_upto_after[OF e, of "Suc J"] bfs_upto_after[OF e, of J] by (simp_all add: K)
  let ?s4 = "s3\<lparr>nlevel := nlevel s3 - 1\<rparr>"
  have lJ: "levels s3 (int J) = int (length (bfs_upto W H s J))" using l3 by simp
  have last: "levels ?s4 (nlevel ?s4 - 1) = n3"
    using lJ by (simp add: nl n3 up)
  have go: "GenerateOrder W H s = Inr ?s4"
    unfolding GenerateOrder_def Let_def
    using f1 nw r(1) last big by (simp add: level_width_def)
  have l4: "\<forall>i \<le> Suc K. levels ?s4 (int i) = int (length (bfs_upto W H s i))"
    using l3 by (simp add: K)
  have "nlevel ?s4 = int K + 2" by (simp add: nl K)
  moreover have "seg (stack ?s4) 0 (length (bfs_upto W H s K)) = bfs_upto W H s K"
    using st by (simp add: up)
  moreover have "order_only s ?s4" using oo by (simp add: order_only_def)
  ultimately show ?thesis using go e ne l4 by blast
qed

subsection \<open>The levels are the cells at equal distance from their sink\<close>

lemma sink_dist_0 [simp]: "sink_dist W s c 0 \<longleftrightarrow> rec s c = NO_FLOW"
  by (simp add: sink_dist_def)

lemma sink_dist_Suc [simp]:
  "sink_dist W s c (Suc k) \<longleftrightarrow> rec s c \<noteq> NO_FLOW \<and> sink_dist W s (receiver W s c) k"
  by (simp add: sink_dist_def)

lemma sink_dist_unique: "sink_dist W s c k \<Longrightarrow> sink_dist W s c k' \<Longrightarrow> k = k'"
proof (induction k arbitrary: c k')
  case 0
  then show ?case by (cases k') auto
next
  case (Suc k)
  then show ?case by (cases k') auto
qed

lemma distinct_concat_map:
  assumes "distinct xs" "\<forall>x \<in> set xs. distinct (f x)"
    "\<forall>x \<in> set xs. \<forall>y \<in> set xs. x \<noteq> y \<longrightarrow> set (f x) \<inter> set (f y) = {}"
  shows "distinct (concat (map f xs))"
  using assms by (induction xs) auto

lemma distinct_frame: "distinct (frame W H)"
  unfolding frame_def by (rule distinct_cells) auto

lemma set_bfs_level:
  assumes g: "grid_inv W H s" and dk: "donors_ok W H s"
  shows "set (bfs_level W H s k) = {c \<in> set (frame W H). sink_dist W s c k}"
proof (induction k)
  case 0
  then show ?case by (auto simp: seeds_def)
next
  case (Suc k)
  show ?case
  proof (intro set_eqI iffI)
    fix n assume "n \<in> set (bfs_level W H s (Suc k))"
    then obtain c where c: "c \<in> set (bfs_level W H s k)" and n: "n \<in> set (donor_slots s c)"
      by auto
    from c Suc have cf: "c \<in> set (frame W H)" and cd: "sink_dist W s c k" by auto
    from n dk cf have np: "n \<in> set (pointing_neighbours W (rec s) c)" by (simp add: donors_ok_def)
    then obtain d where "0 \<le> d" "d \<le> 7" "n = c + nshift W d" by (auto simp: set_pointing)
    then have ng: "n \<in> set (all_cells W H)" using neighbour_of_frame[OF cf] by simp
    from np pointing_iff[OF g cf ng] have nf: "rec s n \<noteq> NO_FLOW" and rc: "receiver W s n = c"
      by simp_all
    have "n \<in> set (frame W H)"
      using receiver_of_flowing(1)[OF g ng nf] by (rule interior_frame)
    then show "n \<in> {c \<in> set (frame W H). sink_dist W s c (Suc k)}"
      using nf rc cd by simp
  next
    fix n assume "n \<in> {c \<in> set (frame W H). sink_dist W s c (Suc k)}"
    then have nfr: "n \<in> set (frame W H)" and nf: "rec s n \<noteq> NO_FLOW"
      and rd: "sink_dist W s (receiver W s n) k" by simp_all
    have ng: "n \<in> set (all_cells W H)" using nfr by (rule frame_all_cells)
    have cf: "receiver W s n \<in> set (frame W H)" using receiver_of_flowing(4)[OF g ng nf] .
    then have c: "receiver W s n \<in> set (bfs_level W H s k)" using Suc rd by simp
    have "n \<in> set (pointing_neighbours W (rec s) (receiver W s n))"
      using pointing_iff[OF g cf ng] nf by simp
    then have "n \<in> set (donor_slots s (receiver W s n))" using dk cf by (simp add: donors_ok_def)
    then show "n \<in> set (bfs_level W H s (Suc k))" using c by auto
  qed
qed

lemma distinct_bfs_level:
  assumes g: "grid_inv W H s" and dk: "donors_ok W H s"
  shows "distinct (bfs_level W H s k)"
proof (induction k)
  case 0
  then show ?case by (simp add: seeds_def distinct_frame)
next
  case (Suc k)
  have fr: "c \<in> set (frame W H)" if "c \<in> set (bfs_level W H s k)" for c
    using that set_bfs_level[OF g dk, of k] by simp
  have 1: "\<forall>c \<in> set (bfs_level W H s k). distinct (donor_slots s c)"
  proof
    fix c assume "c \<in> set (bfs_level W H s k)"
    then have cf: "c \<in> set (frame W H)" by (rule fr)
    then have "3 \<le> W" using frame_in_grid by blast
    then show "distinct (donor_slots s c)"
      using dk cf distinct_pointing[of W "rec s" c] by (simp add: donors_ok_def)
  qed
  have 2: "\<forall>c \<in> set (bfs_level W H s k). \<forall>c' \<in> set (bfs_level W H s k). c \<noteq> c' \<longrightarrow>
      set (donor_slots s c) \<inter> set (donor_slots s c') = {}"
  proof (intro ballI impI)
    fix c c' assume c: "c \<in> set (bfs_level W H s k)" "c' \<in> set (bfs_level W H s k)" "c \<noteq> c'"
    have "donor_slots s c = pointing_neighbours W (rec s) c"
      "donor_slots s c' = pointing_neighbours W (rec s) c'"
      using dk fr[OF c(1)] fr[OF c(2)] by (simp_all add: donors_ok_def)
    then show "set (donor_slots s c) \<inter> set (donor_slots s c') = {}"
      using c(3) by (auto simp: set_pointing)
  qed
  show ?case using Suc 1 2 by (simp add: distinct_concat_map)
qed

lemma set_bfs_upto: "set (bfs_upto W H s j) = (\<Union>i < j. set (bfs_level W H s i))"
  by (auto simp: bfs_upto_def)

lemma distinct_bfs_upto:
  assumes g: "grid_inv W H s" and dk: "donors_ok W H s"
  shows "distinct (bfs_upto W H s j)"
proof (induction j)
  case 0
  then show ?case by simp
next
  case (Suc j)
  have "set (bfs_upto W H s j) \<inter> set (bfs_level W H s j) = {}"
  proof (rule ccontr)
    assume "set (bfs_upto W H s j) \<inter> set (bfs_level W H s j) \<noteq> {}"
    then obtain c i where "i < j" "c \<in> set (bfs_level W H s i)" "c \<in> set (bfs_level W H s j)"
      by (auto simp: set_bfs_upto)
    then have "sink_dist W s c i" "sink_dist W s c j" "i \<noteq> j"
      using set_bfs_level[OF g dk] by auto
    then show False using sink_dist_unique by blast
  qed
  then show ?case using Suc distinct_bfs_level[OF g dk] by (simp add: bfs_upto_Suc)
qed

lemma bfs_upto_frame:
  assumes g: "grid_inv W H s" and dk: "donors_ok W H s"
  shows "set (bfs_upto W H s j) \<subseteq> set (frame W H)"
  using set_bfs_level[OF g dk] by (auto simp: set_bfs_upto)

lemma frame_card: "0 < W * H \<Longrightarrow> int (card (set (frame W H))) < W * H"
proof -
  assume p: "0 < W * H"
  have "set (frame W H) \<subseteq> {1..W * H - 1}"
  proof
    fix c assume c: "c \<in> set (frame W H)"
    then obtain y x where yx: "1 \<le> y" "1 \<le> x" "x < W - 1" "c = y * W + x"
      by (auto simp: in_frame)
    have "0 \<le> y * W" using yx by simp
    then have "1 \<le> c" using yx by linarith
    then show "c \<in> {1..W * H - 1}" using frame_in_grid[OF c] by simp
  qed
  then have "card (set (frame W H)) \<le> card {1..W * H - 1}" by (intro card_mono) auto
  then show ?thesis using p by simp
qed

lemma bfs_upto_bound:
  assumes g: "grid_inv W H s" and dk: "donors_ok W H s" and p: "0 < W * H"
  shows "int (length (bfs_upto W H s j)) < W * H"
proof -
  have "length (bfs_upto W H s j) = card (set (bfs_upto W H s j))"
    using distinct_bfs_upto[OF g dk] by (simp add: distinct_card)
  also have "\<dots> \<le> card (set (frame W H))"
    using bfs_upto_frame[OF g dk] by (intro card_mono) auto
  finally show ?thesis using frame_card[OF p] by simp
qed

subsection \<open>GenerateOrder in a run\<close>

lemma bfs_level_cong:
  assumes "rec s' = rec s" "donor s' = donor s" "ndon s' = ndon s"
  shows "bfs_level W H s' k = bfs_level W H s k"
proof (induction k)
  case 0
  then show ?case by (simp add: seeds_def assms)
next
  case (Suc k)
  then show ?case by (simp add: donor_slots_cong[OF assms(2,3)])
qed

lemma bfs_upto_cong:
  assumes "rec s' = rec s" "donor s' = donor s" "ndon s' = ndon s"
  shows "bfs_upto W H s' j = bfs_upto W H s j"
proof -
  have "bfs_level W H s' = bfs_level W H s"
    by (rule ext) (rule bfs_level_cong[OF assms])
  then show ?thesis by (simp add: bfs_upto_def)
qed

lemma ordered_cong:
  assumes "rec s' = rec s" "donor s' = donor s" "ndon s' = ndon s"
    "stack s' = stack s" "levels s' = levels s" "nlevel s' = nlevel s"
  shows "ordered W H s' K = ordered W H s K"
  unfolding ordered_def bfs_level_cong[OF assms(1-3)] bfs_upto_cong[OF assms(1-3)] assms(4-6) ..

lemma GenerateOrder_big:
  assumes "GenerateOrder W H s = Inr s'"
  shows "2 < W * H"
proof -
  let ?s0 = "s\<lparr>levels := (levels s)(0 := 0), nlevel := 1\<rparr>"
  from assms obtain s1 n1 where 1: "fold_err (push_seed (stack_width W H)) (frame W H) (?s0, 0) = Inr (s1, n1)"
    by (auto simp: GenerateOrder_def Let_def split: sum.splits)
  have "nlevel (fst (s1, n1)) = 1"
    using 1 by (rule fold_err_inv[where P="\<lambda>sn. nlevel (fst sn) = 1", rotated])
       (auto simp: push_seed_def split: if_splits)
  then have "nlevel (fst (new_level (s1, n1))) = 2" by (simp add: new_level_def)
  then show ?thesis
    using assms 1 by (auto simp: GenerateOrder_def Let_def level_width_def split: prod.splits if_splits)
qed

lemma GenerateOrder_ordered:
  assumes g: "grid_inv W H s" and dk: "donors_ok W H s" and big: "2 < W * H"
  shows "\<exists>K s'. GenerateOrder W H s = Inr s' \<and> ordered W H s' K"
proof -
  have "\<forall>j. int (length (bfs_upto W H s j)) < W * H"
    using bfs_upto_bound[OF g dk] big by simp
  from GenerateOrder_refines[OF this big] obtain K s' where
    r: "GenerateOrder W H s = Inr s'" "bfs_level W H s K = []" "\<forall>k < K. bfs_level W H s k \<noteq> []"
      "nlevel s' = int K + 2" "\<forall>i \<le> Suc K. levels s' (int i) = int (length (bfs_upto W H s i))"
      "seg (stack s') 0 (length (bfs_upto W H s K)) = bfs_upto W H s K" "order_only s s'"
    by blast
  from r(7) have c: "rec s' = rec s" "donor s' = donor s" "ndon s' = ndon s"
    by (simp_all add: order_only_def)
  have "ordered W H s' K"
    unfolding ordered_def bfs_level_cong[OF c] bfs_upto_cong[OF c] using r(2-6) by simp
  then show ?thesis using r(1) by blast
qed

lemma at_stage_ordered:
  assumes "at_stage W H b s"
  shows "b \<in> {Ordered, Accumulated, Uplifted} \<longrightarrow> (\<exists>K. ordered W H s K)"
  using assms
proof (induction rule: at_stage.induct)
  case (at_Ordered s s')
  from at_stage_inv[OF at_Ordered.hyps(1)] have g: "grid_inv W H s" and dk: "donors_ok W H s"
    by auto
  from GenerateOrder_ordered[OF g dk GenerateOrder_big[OF at_Ordered.hyps(2)]] at_Ordered.hyps(2)
  show ?case by auto
next
  case (at_Accumulated s)
  then show ?case by (simp add: ordered_cong[of "ComputeFlowAcc W H s" s])
next
  case (at_Uplifted s)
  then show ?case by (simp add: ordered_cong[of "AddUplift W H s" s])
qed simp_all

lemma GenerateOrder_total:
  assumes "at_stage W H Donated s" "2 < W * H"
  shows "\<exists>s'. GenerateOrder W H s = Inr s'"
  using at_stage_inv[OF assms(1)] GenerateOrder_ordered[OF _ _ assms(2), of s] by auto

subsection \<open>Positions in the stack\<close>

lemma bfs_upto_prefix: "k \<le> j \<Longrightarrow> \<exists>r. bfs_upto W H s j = bfs_upto W H s k @ r"
proof (induction j)
  case 0
  then show ?case by simp
next
  case (Suc j)
  show ?case
  proof (cases "k = Suc j")
    case True
    then show ?thesis by simp
  next
    case False
    then have "k \<le> j" using Suc.prems by simp
    from Suc.IH[OF this] show ?thesis by (auto simp: bfs_upto_Suc)
  qed
qed




lemma ordered_stack:
  assumes "ordered W H s K" "m < length (bfs_upto W H s K)"
  shows "stack s (int m) = bfs_upto W H s K ! m"
proof -
  from assms(1) have "seg (stack s) 0 (length (bfs_upto W H s K)) = bfs_upto W H s K"
    by (simp add: ordered_def)
  then have "seg (stack s) 0 (length (bfs_upto W H s K)) ! m = bfs_upto W H s K ! m" by simp
  then show ?thesis using assms(2) by simp
qed

lemma ordered_levels:
  "ordered W H s K \<Longrightarrow> i \<le> Suc K \<Longrightarrow> levels s (int i) = int (length (bfs_upto W H s i))"
  by (simp add: ordered_def)




lemma at_ordered5: "at_stage 5 5 Ordered ordered5"
proof -
  from GenerateOrder_total[OF at_donated5] obtain s' where s': "GenerateOrder 5 5 donated5 = Inr s'"
    by auto
  then have "ordered5 = s'" by (simp add: ordered5_def)
  then show ?thesis using at_Ordered[OF at_donated5 s'] by simp
qed

lemma levels_last_two:
  assumes "at_stage W H Ordered s"
  shows "levels s (nlevel s - 2) = levels s (nlevel s - 1)"
proof -
  from at_stage_ordered[OF assms] obtain K where o: "ordered W H s K" by auto
  then have e: "bfs_level W H s K = []" and nl: "nlevel s = int K + 2"
    by (simp_all add: ordered_def)
  have "levels s (int K) = int (length (bfs_upto W H s K))"
    by (rule ordered_levels[OF o le_SucI[OF le_refl]])
  moreover have "levels s (int (Suc K)) = int (length (bfs_upto W H s (Suc K)))"
    by (rule ordered_levels[OF o le_refl])
  ultimately have "levels s (int K) = int (length (bfs_upto W H s K))"
    "levels s (int (Suc K)) = int (length (bfs_upto W H s (Suc K)))" by simp_all
  then have "levels s (int K) = levels s (int (Suc K))"
    using e by (simp add: bfs_upto_Suc del: of_nat_Suc)
  moreover have "nlevel s - 2 = int K" "nlevel s - 1 = int (Suc K)" using nl by simp_all
  ultimately show ?thesis by (simp only:)
qed

subsection \<open>The order on the 5 x 5 grid\<close>


lemma interior5: "interior 5 5 = [12]"
  by (simp add: interior_def cells_def upto_rec1)















subsection \<open>The number of passes\<close>

lemma run_loop_passes:
  "run_loop W H i nstep s = pipeline_times W H (nat (nstep + 1 - i)) s"
proof (induction W H i nstep s rule: run_loop.induct)
  case (1 W H i nstep s)
  show ?case
  proof (cases "i \<le> nstep")
    case True
    then have n: "nat (nstep + 1 - i) = Suc (nat (nstep + 1 - (i + 1)))" by simp
    show ?thesis
      using True 1 by (subst run_loop.simps, subst n) (auto split: option.splits sum.splits)
  next
    case False
    then have "nat (nstep + 1 - i) = 0" by simp
    then show ?thesis using False by (subst run_loop.simps) simp
  qed
qed

text \<open>
  C7, as the code has it.  The loop \<open>for(int step=0;step<=nstep;step++)\<close> of \<open>run\<close>
  executes the six stages \<open>nstep + 1\<close> times, not \<open>nstep\<close> times; with \<open>nstep = 0\<close> it
  executes them once.
\<close>

theorem run_executes_one_pass_more:
  "run W H nstep s = pipeline_times W H (nat (nstep + 1)) (run_init W H s)
   \<and> run W H 0 s = step W H (run_init W H s)"
proof -
  have 1: "run W H n s = pipeline_times W H (nat (n + 1)) (run_init W H s)" for n
    using run_loop_passes[of W H 0 n] by (simp add: run_def)
  have "pipeline_times W H (Suc 0) t = step W H t" for t
    by (simp split: option.splits sum.splits)
  then show ?thesis using 1[of nstep] 1[of 0] by simp
qed

theorem run_executes_one_pass_more_witness:
  "run 5 5 0 (constructor 5 5 (\<lambda>_. 1 / 2) grid5) = step 5 5 start5
   \<and> run 5 5 3 (constructor 5 5 (\<lambda>_. 1 / 2) grid5) = pipeline_times 5 5 4 start5"
  using run_executes_one_pass_more[of 5 5 0 "constructor 5 5 (\<lambda>_. 1 / 2) grid5"]
    run_executes_one_pass_more[of 5 5 3 "constructor 5 5 (\<lambda>_. 1 / 2) grid5"]
  by (simp add: start5_def)

subsection \<open>The two outer rings\<close>

lemma second_ring_cell:
  assumes W: "3 \<le> W" and H: "3 \<le> H"
  shows "W + 1 \<in> set (frame W H)" and "W + 1 \<notin> set (interior W H)"
proof -
  show "W + 1 \<in> set (frame W H)"
    unfolding in_frame using W H by (intro exI[of _ 1]) simp
  show "W + 1 \<notin> set (interior W H)"
  proof
    assume "W + 1 \<in> set (interior W H)"
    then obtain y x where yx: "2 \<le> y" "y < H - 2" "2 \<le> x" "x < W - 2" "W + 1 = y * W + x"
      unfolding in_interior by blast
    have "2 * W \<le> y * W" using yx(1) W by (intro mult_right_mono) simp_all
    with yx(3,5) W show False by linarith
  qed
qed

lemma seeds_nonempty:
  assumes g: "grid_inv W H s" and W: "3 \<le> W" and H: "3 \<le> H"
  shows "W + 1 \<in> set (seeds W H s)"
proof -
  note f = second_ring_cell[OF W H]
  have "W + 1 \<in> set (all_cells W H)" using f(1) by (rule frame_all_cells)
  then have "rec s (W + 1) = NO_FLOW" using g f(2) by (simp add: grid_inv_def)
  then show ?thesis using f(1) by (simp add: seeds_def)
qed

lemma erode_cell_skips: "rec s (stack s si) = NO_FLOW \<Longrightarrow> erode_cell W si s = Some s"
  by (simp add: erode_cell_def)

lemma frame2: "frame 2 2 = []"
  by (simp add: frame_def cells_def)

lemma at_donated2: "at_stage 2 2 Donated donated2"
  unfolding donated2_def start2_def by (intro at_Donated at_Received at_first) simp

lemma at_ordered2: "at_stage 2 2 Ordered ordered2"
proof -
  from GenerateOrder_total[OF at_donated2] obtain s' where s': "GenerateOrder 2 2 donated2 = Inr s'"
    by auto
  then have "ordered2 = s'" by (simp add: ordered2_def)
  then show ?thesis using at_Ordered[OF at_donated2 s'] by simp
qed

lemma levels2: "nlevel ordered2 = 2" "levels ordered2 0 = 0" "levels ordered2 1 = 0"
proof -
  from at_stage_ordered[OF at_ordered2] obtain K where o: "ordered 2 2 ordered2 K" by auto
  have e: "bfs_level 2 2 ordered2 0 = []" by (simp add: seeds_def frame2)
  have "K = 0"
  proof (rule ccontr)
    assume "K \<noteq> 0"
    then have "0 < K" by simp
    then have "bfs_level 2 2 ordered2 0 \<noteq> []" using o unfolding ordered_def by blast
    then show False using e by simp
  qed
  then have o0: "ordered 2 2 ordered2 0" using o by simp
  then show "nlevel ordered2 = 2" by (simp add: ordered_def)
  show "levels ordered2 0 = 0" using ordered_levels[OF o0, of 0] by (simp add: bfs_upto_def)
  show "levels ordered2 1 = 0" using ordered_levels[OF o0, of "Suc 0"] e
    by (simp add: bfs_upto_def del: bfs_level.simps)
qed

text \<open>
  C9, as the code has it.  At every stage boundary of every pass each cell of the two
  outermost rings has elevation 0 and receiver \<open>NO_FLOW\<close>; \<open>ComputeReceivers\<close> and
  \<open>AddUplift\<close> leave every cell outside the interior as it is, and \<open>Erode\<close> leaves a stack
  entry marked \<open>NO_FLOW\<close> as it is.  On a grid of at least 3 by 3 cells the seed level of the
  Ordering stage is not empty: it holds the cell (1,1), and after the stage
  \<open>levels[0] < levels[1]\<close>.
\<close>

theorem outer_rings_fixed:
  assumes a: "at_stage W H b s"
  shows "(\<forall>c \<in> outer_rings W H. h s c = 0 \<and> rec s c = NO_FLOW)
       \<and> (\<forall>t c. c \<notin> set (interior W H) \<longrightarrow>
             rec (ComputeReceivers W H t) c = rec t c \<and> h (ComputeReceivers W H t) c = h t c
           \<and> h (AddUplift W H t) c = h t c \<and> rec (AddUplift W H t) c = rec t c)
       \<and> (\<forall>t si. rec t (stack t si) = NO_FLOW \<longrightarrow> erode_cell W si t = Some t)
       \<and> (3 \<le> W \<and> 3 \<le> H \<longrightarrow>
             W + 1 \<in> outer_rings W H \<and> W + 1 \<in> set (seeds W H s) \<and> seeds W H s \<noteq> []
           \<and> (b = Ordered \<longrightarrow> levels s 0 = 0 \<and> 0 < levels s 1))"
proof -
  from at_stage_inv[OF a] have g: "grid_inv W H s" by simp
  have 1: "\<forall>c \<in> outer_rings W H. h s c = 0 \<and> rec s c = NO_FLOW"
    using g by (simp add: outer_rings_iff grid_inv_def)
  have 2: "\<forall>t c. c \<notin> set (interior W H) \<longrightarrow>
             rec (ComputeReceivers W H t) c = rec t c \<and> h (ComputeReceivers W H t) c = h t c
           \<and> h (AddUplift W H t) c = h t c \<and> rec (AddUplift W H t) c = rec t c"
    by (simp add: ComputeReceivers_eq AddUplift_eq)
  have 3: "\<forall>t si. rec t (stack t si) = NO_FLOW \<longrightarrow> erode_cell W si t = Some t"
    by (simp add: erode_cell_skips)
  have 4: "W + 1 \<in> outer_rings W H \<and> W + 1 \<in> set (seeds W H s) \<and> seeds W H s \<noteq> []
           \<and> (b = Ordered \<longrightarrow> levels s 0 = 0 \<and> 0 < levels s 1)" if W: "3 \<le> W" and H: "3 \<le> H"
  proof -
    note m = seeds_nonempty[OF g W H]
    then have ne: "seeds W H s \<noteq> []" by auto
    have o: "W + 1 \<in> outer_rings W H"
      using second_ring_cell[OF W H] frame_all_cells[of "W + 1" W H] by (simp add: outer_rings_iff)
    have l: "levels s 0 = 0 \<and> 0 < levels s 1" if "b = Ordered"
    proof -
      from at_stage_ordered[OF a] that obtain K where k: "ordered W H s K" by auto
      have "levels s 0 = int (length (bfs_upto W H s 0))"
        "levels s 1 = int (length (bfs_upto W H s (Suc 0)))"
        using ordered_levels[OF k, of 0] ordered_levels[OF k, of "Suc 0"] by simp_all
      then show ?thesis using ne by (simp add: bfs_upto_def)
    qed
    show ?thesis using m ne o l by simp
  qed
  show ?thesis using 1 2 3 4 by blast
qed

theorem outer_rings_fixed_witness:
  "at_stage 5 5 Ordered ordered5 \<and> 6 \<in> outer_rings 5 5 \<and> h ordered5 6 = 0
   \<and> rec ordered5 6 = NO_FLOW \<and> 6 \<in> set (seeds 5 5 ordered5) \<and> 0 < levels ordered5 1
   \<and> 6 \<notin> set (interior 5 5) \<and> rec (ComputeReceivers 5 5 ordered5) 6 = rec ordered5 6
   \<and> h (AddUplift 5 5 ordered5) 6 = h ordered5 6"
proof -
  note t = outer_rings_fixed[OF at_ordered5]
  from t have 4: "3 \<le> (5::int) \<and> 3 \<le> (5::int) \<longrightarrow>
             5 + 1 \<in> outer_rings 5 5 \<and> 5 + 1 \<in> set (seeds 5 5 ordered5) \<and> seeds 5 5 ordered5 \<noteq> []
           \<and> (Ordered = Ordered \<longrightarrow> levels ordered5 0 = 0 \<and> 0 < levels ordered5 1)"
    by blast
  then have o: "6 \<in> outer_rings 5 5" "6 \<in> set (seeds 5 5 ordered5)" "0 < levels ordered5 1"
    by simp_all
  from t have "\<forall>c \<in> outer_rings 5 5. h ordered5 c = 0 \<and> rec ordered5 c = NO_FLOW" by blast
  with o(1) have r: "h ordered5 6 = 0" "rec ordered5 6 = NO_FLOW" by blast+
  have ni: "6 \<notin> set (interior 5 5)" by (simp add: interior5)
  from t have "\<forall>t c. c \<notin> set (interior 5 5) \<longrightarrow>
             rec (ComputeReceivers 5 5 t) c = rec t c \<and> h (ComputeReceivers 5 5 t) c = h t c
           \<and> h (AddUplift 5 5 t) c = h t c \<and> rec (AddUplift 5 5 t) c = rec t c" by blast
  with ni have w: "rec (ComputeReceivers 5 5 ordered5) 6 = rec ordered5 6"
    "h (AddUplift 5 5 ordered5) 6 = h ordered5 6" by blast+
  show ?thesis by (intro conjI at_ordered5 o r ni w)
qed

theorem seed_level_empty_counterexample:
  "at_stage 2 2 Ordered ordered2 \<and> seeds 2 2 donated2 = [] \<and> seeds 2 2 ordered2 = []
   \<and> nlevel ordered2 = 2 \<and> levels ordered2 0 = 0 \<and> levels ordered2 1 = 0"
  using at_ordered2 by (simp add: levels2 seeds_def frame2)

subsection \<open>Erode returns\<close>

lemma erode_cell_total:
  assumes g: "grid_inv W H t" and d: "descends_weak W H t"
    and c: "stack t si \<in> set (all_cells W H)"
  shows "\<exists>t'. erode_cell W si t = Some t'"
proof (cases "rec t (stack t si) = NO_FLOW")
  case True
  then show ?thesis by (simp add: erode_cell_def)
next
  case False
  let ?c = "stack t si"
  have ci: "?c \<in> set (interior W H)" using g c False by (auto simp: grid_inv_def)
  have le: "h t (?c + nshift W (rec t ?c)) \<le> h t ?c"
    using d ci False by (simp add: descends_weak_def receiver_def)
  from newton_converges[OF factr_nonneg le, of "accum t ?c" "dr (rec t ?c)"]
  show ?thesis using False by (auto simp: erode_cell_def Let_def)
qed

lemma erode_cells_total:
  assumes "erode_inv W H s t" and "h_only s t"
    and "\<forall>si \<in> set xs. stack s si \<in> set (all_cells W H)"
  shows "\<exists>t'. fold_opt (erode_cell W) xs t = Some t'"
  using assms
proof (induction xs arbitrary: t)
  case Nil
  then show ?case by simp
next
  case (Cons si xs)
  have st: "stack t = stack s" using Cons.prems(2) by (simp add: h_only_def)
  from Cons.prems(1) have g: "grid_inv W H t" and d: "descends_weak W H t"
    by (simp_all add: erode_inv_def)
  have "stack t si \<in> set (all_cells W H)" using Cons.prems(3) by (simp add: st)
  from erode_cell_total[OF g d this] obtain t1 where 1: "erode_cell W si t = Some t1" by auto
  have "erode_inv W H s t1" using erode_cell_erode_inv[OF 1 Cons.prems(1)] .
  moreover have "h_only s t1" using erode_cell_only[OF 1 Cons.prems(2)] .
  ultimately obtain t' where "fold_opt (erode_cell W) xs t1 = Some t'"
    using Cons.IH[of t1] Cons.prems(3) by auto
  then show ?case using 1 by simp
qed

lemma erode_levels_total:
  assumes "erode_inv W H s t" and "h_only s t"
    and "\<forall>li \<in> set ls. \<forall>si. levels s li \<le> si \<and> si < levels s (li + 1)
           \<longrightarrow> stack s si \<in> set (all_cells W H)"
  shows "\<exists>t'. fold_opt (erode_level W) ls t = Some t'"
  using assms
proof (induction ls arbitrary: t)
  case Nil
  then show ?case by simp
next
  case (Cons li ls)
  have lv: "levels t = levels s" using Cons.prems(2) by (simp add: h_only_def)
  have "\<forall>si \<in> set [levels s li..levels s (li + 1) - 1]. stack s si \<in> set (all_cells W H)"
    using Cons.prems(3) by simp
  from erode_cells_total[OF Cons.prems(1,2) this]
  obtain t1 where 1: "erode_level W li t = Some t1" by (auto simp: erode_level_def lv)
  have "erode_inv W H s t1" using erode_level_erode_inv[OF 1 Cons.prems(1)] .
  moreover have "h_only s t1" using erode_level_only[OF 1 Cons.prems(2)] .
  ultimately obtain t' where "fold_opt (erode_level W) ls t1 = Some t'"
    using Cons.IH[of t1] Cons.prems(3) by auto
  then show ?case using 1 by simp
qed

lemma level_entry_in_grid:
  assumes o: "ordered W H s K" and g: "grid_inv W H s" and dk: "donors_ok W H s"
    and li: "0 \<le> li" "li \<le> nlevel s - 2" and si: "levels s li \<le> si" "si < levels s (li + 1)"
  shows "stack s si \<in> set (all_cells W H)"
proof -
  from o have e: "bfs_level W H s K = []" and nl: "nlevel s = int K + 2"
    by (simp_all add: ordered_def)
  have k: "nat li \<le> K" "int (nat li) = li" using li nl by simp_all
  have l0: "levels s li = int (length (bfs_upto W H s (nat li)))"
    using ordered_levels[OF o, of "nat li"] k by simp
  have s1: "levels s (int (Suc (nat li))) = int (length (bfs_upto W H s (Suc (nat li))))"
    using k(1) by (intro ordered_levels[OF o]) simp
  have "int (Suc (nat li)) = li + 1" using k(2) by simp
  then have l1: "levels s (li + 1) = int (length (bfs_upto W H s (Suc (nat li))))"
    using s1 by (simp only:)
  have sk: "bfs_upto W H s (Suc K) = bfs_upto W H s K"
    using bfs_upto_after[OF e, of "Suc K"] by simp
  obtain r where r: "bfs_upto W H s (Suc K) = bfs_upto W H s (Suc (nat li)) @ r"
    using bfs_upto_prefix[of "Suc (nat li)" "Suc K" W H s] k(1) by auto
  have "length (bfs_upto W H s (Suc K)) = length (bfs_upto W H s (Suc (nat li))) + length r"
    by (simp only: r length_append)
  then have "length (bfs_upto W H s (Suc (nat li))) \<le> length (bfs_upto W H s K)"
    by (simp only: sk)
  then have m: "nat si < length (bfs_upto W H s K)" and p: "int (nat si) = si"
    using si l0 l1 by simp_all
  have "stack s (int (nat si)) = bfs_upto W H s K ! nat si" by (rule ordered_stack[OF o m])
  then have "stack s si \<in> set (bfs_upto W H s K)" using nth_mem[OF m] p by simp
  then have "stack s si \<in> set (frame W H)" using bfs_upto_frame[OF g dk, of K] by blast
  then show ?thesis by (rule frame_all_cells)
qed

lemma Erode_total:
  assumes a: "at_stage W H Uplifted s"
  shows "\<exists>s'. Erode W s = Some s'"
proof -
  from at_stage_inv[OF a] have g: "grid_inv W H s" and dk: "donors_ok W H s"
    and d: "descends_weak W H s" by auto
  from at_stage_ordered[OF a] obtain K where o: "ordered W H s K" by auto
  have "erode_inv W H s s" using g d by (simp add: erode_inv_def)
  moreover have "h_only s s" by (simp add: h_only_def)
  moreover have "\<forall>li \<in> set [0..nlevel s - 2]. \<forall>si. levels s li \<le> si \<and> si < levels s (li + 1)
           \<longrightarrow> stack s si \<in> set (all_cells W H)"
  proof (intro ballI allI impI)
    fix li si
    assume "li \<in> set [0..nlevel s - 2]" and "levels s li \<le> si \<and> si < levels s (li + 1)"
    then have "0 \<le> li" "li \<le> nlevel s - 2" "levels s li \<le> si" "si < levels s (li + 1)"
      by simp_all
    then show "stack s si \<in> set (all_cells W H)" by (rule level_entry_in_grid[OF o g dk])
  qed
  ultimately show ?thesis unfolding Erode_def by (rule erode_levels_total)
qed

text \<open>
  C6.  In every pass, \<open>AddUplift\<close> adds \<open>ueq * dt\<close> to the elevation of every interior cell and
  so does not lower it, and it leaves every other cell as it is; \<open>Erode\<close>, run on the state
  that \<open>AddUplift\<close> leaves, returns, and in the state it returns no cell of the grid is higher
  than before the erosion.
\<close>

theorem uplift_raises_erosion_lowers:
  assumes a: "at_stage W H Accumulated s"
  shows "(\<forall>c \<in> set (interior W H).
            h (AddUplift W H s) c = h s c + ueq * dt \<and> h s c \<le> h (AddUplift W H s) c)
       \<and> (\<forall>c. c \<notin> set (interior W H) \<longrightarrow> h (AddUplift W H s) c = h s c)
       \<and> (\<exists>s'. Erode W (AddUplift W H s) = Some s'
             \<and> (\<forall>c \<in> set (all_cells W H). h s' c \<le> h (AddUplift W H s) c))"
proof -
  have u: "0 \<le> ueq * dt" by (simp add: ueq_def dt_def)
  have 1: "\<forall>c \<in> set (interior W H).
            h (AddUplift W H s) c = h s c + ueq * dt \<and> h s c \<le> h (AddUplift W H s) c"
    using u by (simp add: AddUplift_eq)
  have 2: "\<forall>c. c \<notin> set (interior W H) \<longrightarrow> h (AddUplift W H s) c = h s c"
    by (simp add: AddUplift_eq)
  have b: "at_stage W H Uplifted (AddUplift W H s)" using a by (rule at_Uplifted)
  from Erode_total[OF b] obtain s' where s': "Erode W (AddUplift W H s) = Some s'" by auto
  from at_stage_inv[OF b] have "grid_inv W H (AddUplift W H s)"
    "descends_weak W H (AddUplift W H s)" by auto
  from Erode_erode_inv[OF s' this]
  have "\<forall>c \<in> set (all_cells W H). h s' c \<le> h (AddUplift W H s) c" by (simp add: erode_inv_def)
  with s' have 3: "\<exists>s'. Erode W (AddUplift W H s) = Some s'
             \<and> (\<forall>c \<in> set (all_cells W H). h s' c \<le> h (AddUplift W H s) c)" by blast
  show ?thesis using 1 2 3 by blast
qed

lemma h_ordered5: "h ordered5 = h start5"
proof -
  from GenerateOrder_total[OF at_donated5] obtain s' where s': "GenerateOrder 5 5 donated5 = Inr s'"
    by auto
  then have "order_only donated5 ordered5" using GenerateOrder_only[OF s'] by (simp add: ordered5_def)
  then show ?thesis by (simp add: order_only_def donated5_def ComputeReceivers_eq)
qed

theorem uplift_raises_erosion_lowers_witness:
  "at_stage 5 5 Accumulated (ComputeFlowAcc 5 5 ordered5) \<and> 12 \<in> set (interior 5 5)
   \<and> 12 \<in> set (all_cells 5 5)
   \<and> h (ComputeFlowAcc 5 5 ordered5) 12 = 1 / 2
   \<and> h (AddUplift 5 5 (ComputeFlowAcc 5 5 ordered5)) 12 = 5 / 2
   \<and> (\<exists>s'. Erode 5 (AddUplift 5 5 (ComputeFlowAcc 5 5 ordered5)) = Some s' \<and> h s' 12 \<le> 5 / 2)"
proof -
  have a: "at_stage 5 5 Accumulated (ComputeFlowAcc 5 5 ordered5)"
    using at_ordered5 by (rule at_Accumulated)
  note t = uplift_raises_erosion_lowers[OF a]
  have h0: "h (ComputeFlowAcc 5 5 ordered5) 12 = 1 / 2"
    by (simp add: h_ordered5 h_start5_vals)
  from t have "\<forall>c \<in> set (interior 5 5). h (AddUplift 5 5 (ComputeFlowAcc 5 5 ordered5)) c
      = h (ComputeFlowAcc 5 5 ordered5) c + ueq * dt" by blast
  with in_interior5 have "h (AddUplift 5 5 (ComputeFlowAcc 5 5 ordered5)) 12
      = h (ComputeFlowAcc 5 5 ordered5) 12 + ueq * dt" by blast
  moreover have "h ordered5 12 = 1 / 2" by (simp add: h_ordered5 h_start5_vals)
  ultimately have h1: "h (AddUplift 5 5 (ComputeFlowAcc 5 5 ordered5)) 12 = 5 / 2"
    by (simp add: ueq_def dt_def)
  from t obtain s' where s': "Erode 5 (AddUplift 5 5 (ComputeFlowAcc 5 5 ordered5)) = Some s'"
    and le: "\<forall>c \<in> set (all_cells 5 5). h s' c \<le> h (AddUplift 5 5 (ComputeFlowAcc 5 5 ordered5)) c"
    by blast
  from le in_grid5 have "h s' 12 \<le> h (AddUplift 5 5 (ComputeFlowAcc 5 5 ordered5)) 12" by blast
  then have "h s' 12 \<le> 5 / 2" by (simp only: h1)
  with s' have e: "\<exists>s'. Erode 5 (AddUplift 5 5 (ComputeFlowAcc 5 5 ordered5)) = Some s'
      \<and> h s' 12 \<le> 5 / 2" by blast
  show ?thesis by (intro conjI a in_interior5 in_grid5 h0 h1 e)
qed

end
